theory Spec2Isabelle
  imports Complex_Main
begin

section \<open>Graph-structured retrieval over heading-structured documents\<close>

text \<open>
  A shallow embedding of the retrieval core of the repository:
  \<^item> \<^verbatim>\<open>EnhancedGraphRAG\<close> of \<^verbatim>\<open>helper/app/graph_rag_enhanced.py\<close>: cosine similarity, the
    composite relevance score, the multi-strategy graph traversal and the search orchestrator;
  \<^item> \<^verbatim>\<open>HeaderBasedChunker.chunk_content\<close> of \<^verbatim>\<open>helper/app/confluence_loader.py\<close>.

  Conventions of the model.
  \<^item> Python floats are IEEE 754 binary64 numbers, modelled in the first subsection: every
    operation rounds its exact result to the nearest double, ties to even, overflows to an
    infinity and propagates NaN.
  \<^item> Python strings are \<open>string\<close>: lists of characters that are the code points below 256.
  \<^item> A MongoDB document is a record whose optional fields are \<open>option\<close>s: \<open>None\<close> is a
    field that is absent (\<^verbatim>\<open>"k" not in doc\<close>, \<^verbatim>\<open>doc.get("k")\<close> is \<^verbatim>\<open>None\<close>). The collection
    is the list of its documents, in the order a full scan returns them.
  \<^item> The two calls to external services are inputs: the embedding of the query (which may
    raise) and the list of topics (\<^verbatim>\<open>_extract_topics_from_query\<close> catches its own errors and
    always returns a list).
\<close>

subsection \<open>Floating-point numbers\<close>

text \<open>
  A Python float is a finite double, an infinity or NaN. A finite double is the real number it
  denotes; the two zeros are one value, since \<^verbatim>\<open>==\<close> and \<^verbatim>\<open><\<close> do not tell them apart and the
  code never divides by a zero.
\<close>

datatype fl = Fin real | PInf | NInf | NaN

text \<open>
  Rounding to nearest, ties to even. \<open>round_even\<close> rounds a real number to an integer.
  \<open>ulp_exponent x\<close> is the exponent of the unit in the last place of the doubles of the size
  of \<open>x\<close>: 53 significant bits, and the exponent -1074 for the subnormal numbers.
  \<open>round_real\<close> rounds to a multiple of that unit, and \<open>round_fl\<close> turns a result of magnitude
  2 to the power 1024 or more into an infinity.
\<close>

definition round_even :: "real \<Rightarrow> int" where
  "round_even y =
     (let f = \<lfloor>y\<rfloor>
      in if y - of_int f < 1 / 2 then f
         else if y - of_int f > 1 / 2 then f + 1
         else if even f then f else f + 1)"

definition ulp_exponent :: "real \<Rightarrow> int" where
  "ulp_exponent x = max (\<lfloor>log 2 \<bar>x\<bar>\<rfloor> - 52) (- 1074)"

definition round_real :: "real \<Rightarrow> real" where
  "round_real x =
     (if x = 0 then 0
      else of_int (round_even (x / 2 powi ulp_exponent x)) * 2 powi ulp_exponent x)"

definition round_fl :: "real \<Rightarrow> fl" where
  "round_fl x =
     (let r = round_real x
      in if r \<ge> 2 ^ 1024 then PInf else if r \<le> - (2 ^ 1024) then NInf else Fin r)"

text \<open>
  The arithmetic of the source: \<^verbatim>\<open>*\<close>, \<^verbatim>\<open>+\<close>, \<^verbatim>\<open>/\<close> and \<^verbatim>\<open>** 0.5\<close>. Each rounds the exact
  result; the cases with an infinity or NaN are those of IEEE 754. \<^verbatim>\<open>x ** 0.5\<close> is taken to be
  the correctly rounded square root. Two cases are never reached by the source and are given the
  value NaN: a division by zero (Python raises \<^verbatim>\<open>ZeroDivisionError\<close>; the one division is
  guarded by \<^verbatim>\<open>norm1 * norm2 > 0\<close>) and the square root of a negative number (Python returns a
  complex number; the argument is a sum of squares).
\<close>

fun fl_mul :: "fl \<Rightarrow> fl \<Rightarrow> fl" where
  "fl_mul NaN y = NaN"
| "fl_mul x NaN = NaN"
| "fl_mul (Fin a) (Fin b) = round_fl (a * b)"
| "fl_mul (Fin a) PInf = (if a = 0 then NaN else if 0 < a then PInf else NInf)"
| "fl_mul (Fin a) NInf = (if a = 0 then NaN else if 0 < a then NInf else PInf)"
| "fl_mul PInf (Fin b) = (if b = 0 then NaN else if 0 < b then PInf else NInf)"
| "fl_mul NInf (Fin b) = (if b = 0 then NaN else if 0 < b then NInf else PInf)"
| "fl_mul PInf PInf = PInf"
| "fl_mul PInf NInf = NInf"
| "fl_mul NInf PInf = NInf"
| "fl_mul NInf NInf = PInf"

fun fl_add :: "fl \<Rightarrow> fl \<Rightarrow> fl" where
  "fl_add NaN y = NaN"
| "fl_add x NaN = NaN"
| "fl_add (Fin a) (Fin b) = round_fl (a + b)"
| "fl_add PInf NInf = NaN"
| "fl_add NInf PInf = NaN"
| "fl_add PInf y = PInf"
| "fl_add x PInf = PInf"
| "fl_add NInf y = NInf"
| "fl_add x NInf = NInf"

fun fl_div :: "fl \<Rightarrow> fl \<Rightarrow> fl" where
  "fl_div NaN y = NaN"
| "fl_div x NaN = NaN"
| "fl_div (Fin a) (Fin b) = (if b = 0 then NaN else round_fl (a / b))"
| "fl_div (Fin a) PInf = Fin 0"
| "fl_div (Fin a) NInf = Fin 0"
| "fl_div PInf (Fin b) = (if b = 0 then NaN else if 0 < b then PInf else NInf)"
| "fl_div NInf (Fin b) = (if b = 0 then NaN else if 0 < b then NInf else PInf)"
| "fl_div PInf y = NaN"
| "fl_div NInf y = NaN"

fun fl_sqrt :: "fl \<Rightarrow> fl" where
  "fl_sqrt (Fin a) = (if 0 \<le> a then round_fl (sqrt a) else NaN)"
| "fl_sqrt PInf = PInf"
| "fl_sqrt NInf = PInf"
| "fl_sqrt NaN = NaN"

text \<open>\<^verbatim>\<open><\<close> and \<^verbatim>\<open><=\<close> on floats: every comparison with NaN is false.\<close>

fun fl_lt :: "fl \<Rightarrow> fl \<Rightarrow> bool" where
  "fl_lt (Fin a) (Fin b) = (a < b)"
| "fl_lt (Fin a) PInf = True"
| "fl_lt NInf (Fin b) = True"
| "fl_lt NInf PInf = True"
| "fl_lt x y = False"

definition fl_le :: "fl \<Rightarrow> fl \<Rightarrow> bool" where
  "fl_le x y \<longleftrightarrow> fl_lt x y \<or> (x = y \<and> x \<noteq> NaN)"

text \<open>
  \<^verbatim>\<open>sum(...)\<close> over floats: the additions from left to right, starting from the integer 0.
  (CPython from version 3.12 on adds a compensation term at the end, which does not change a sum
  of up to two terms.)
\<close>

definition fl_sum :: "fl list \<Rightarrow> fl" where
  "fl_sum xs = foldl fl_add (Fin 0) xs"

text \<open>A decimal literal of the source denotes the double nearest to it.\<close>

definition float_lit :: "real \<Rightarrow> fl" where
  "float_lit q = round_fl q"

text \<open>
  An integer that meets a float in an operation is converted to the nearest double. (An integer
  of 2 to the power 1024 or more would raise \<^verbatim>\<open>OverflowError\<close> instead of giving an infinity.)
\<close>

definition fl_of_nat :: "nat \<Rightarrow> fl" where
  "fl_of_nat n = round_fl (real n)"

text \<open>
  \<^verbatim>\<open>sorted(xs, key=..., reverse=True)\<close> on pairs whose second component is the key: a stable
  sort by descending key. Without NaN keys this is the order Python returns; with NaN keys
  Python's order depends on the comparisons its algorithm happens to make, and the order here is
  the one of this insertion sort.
\<close>

fun insert_desc :: "('a \<times> fl) \<Rightarrow> ('a \<times> fl) list \<Rightarrow> ('a \<times> fl) list" where
  "insert_desc x [] = [x]"
| "insert_desc x (y # ys) = (if fl_le (snd y) (snd x) then x # y # ys else y # insert_desc x ys)"

definition sort_desc :: "('a \<times> fl) list \<Rightarrow> ('a \<times> fl) list" where
  "sort_desc xs = foldr insert_desc xs []"

subsection \<open>Documents and the store\<close>

record doc =
  d_id :: string
  d_page_id :: "string option"
  d_header :: "string option"
  d_level :: "int option"
  d_content :: "string option"
  d_full_context :: "string option"
  d_embedding :: "fl list option"
  d_parent_chunk_id :: "string option"

text \<open>Python truthiness of \<^verbatim>\<open>doc.get(k)\<close> for a string or list field: absent and empty are false.\<close>

definition truthy :: "'a list option \<Rightarrow> bool" where
  "truthy v = (case v of None \<Rightarrow> False | Some s \<Rightarrow> s \<noteq> [])"

text \<open>\<^verbatim>\<open>doc.get(k, default)\<close>.\<close>

definition get_or :: "'a option \<Rightarrow> 'a \<Rightarrow> 'a" where
  "get_or v dflt = (case v of None \<Rightarrow> dflt | Some x \<Rightarrow> x)"

text \<open>\<^verbatim>\<open>self.collection.find_one({"_id": doc_id})\<close>.\<close>

definition get_document_by_id :: "doc list \<Rightarrow> string \<Rightarrow> doc option" where
  "get_document_by_id store doc_id = find (\<lambda>d. d_id d = doc_id) store"

subsection \<open>Cosine similarity\<close>

definition cosine_similarity :: "fl list \<Rightarrow> fl list \<Rightarrow> fl" where
  "cosine_similarity vec1 vec2 =
     (let dot_product = fl_sum (map (\<lambda>(a, b). fl_mul a b) (zip vec1 vec2));
          norm1 = fl_sqrt (fl_sum (map (\<lambda>a. fl_mul a a) vec1));
          norm2 = fl_sqrt (fl_sum (map (\<lambda>b. fl_mul b b) vec2))
      in if fl_lt (Fin 0) (fl_mul norm1 norm2) then fl_div dot_product (fl_mul norm1 norm2)
         else Fin 0)"

subsection \<open>Strings: lower case and substring test\<close>

text \<open>
  \<^verbatim>\<open>str.lower()\<close> on the code points below 256: the letters \<open>A\<close> to \<open>Z\<close> and the Latin-1
  capitals 0xC0 to 0xDE (without the sign 0xD7) move up by 0x20; every other character stays.
\<close>

definition upper_chars :: "char list" where
  "upper_chars =
     ''ABCDEFGHIJKLMNOPQRSTUVWXYZ'' @
     [CHR 0xC0, CHR 0xC1, CHR 0xC2, CHR 0xC3, CHR 0xC4, CHR 0xC5, CHR 0xC6,
      CHR 0xC7, CHR 0xC8, CHR 0xC9, CHR 0xCA, CHR 0xCB, CHR 0xCC, CHR 0xCD,
      CHR 0xCE, CHR 0xCF, CHR 0xD0, CHR 0xD1, CHR 0xD2, CHR 0xD3, CHR 0xD4,
      CHR 0xD5, CHR 0xD6, CHR 0xD8, CHR 0xD9, CHR 0xDA, CHR 0xDB, CHR 0xDC,
      CHR 0xDD, CHR 0xDE]"

definition lower_chars :: "char list" where
  "lower_chars =
     ''abcdefghijklmnopqrstuvwxyz'' @
     [CHR 0xE0, CHR 0xE1, CHR 0xE2, CHR 0xE3, CHR 0xE4, CHR 0xE5, CHR 0xE6,
      CHR 0xE7, CHR 0xE8, CHR 0xE9, CHR 0xEA, CHR 0xEB, CHR 0xEC, CHR 0xED,
      CHR 0xEE, CHR 0xEF, CHR 0xF0, CHR 0xF1, CHR 0xF2, CHR 0xF3, CHR 0xF4,
      CHR 0xF5, CHR 0xF6, CHR 0xF8, CHR 0xF9, CHR 0xFA, CHR 0xFB, CHR 0xFC,
      CHR 0xFD, CHR 0xFE]"

definition lower_char :: "char \<Rightarrow> char" where
  "lower_char c =
     (case map_of (zip upper_chars lower_chars) c of
        Some l \<Rightarrow> l
      | None \<Rightarrow> c)"

definition lower :: "string \<Rightarrow> string" where
  "lower s = map lower_char s"

fun is_prefix :: "string \<Rightarrow> string \<Rightarrow> bool" where
  "is_prefix [] ys = True"
| "is_prefix (x # xs) [] = False"
| "is_prefix (x # xs) (y # ys) = (x = y \<and> is_prefix xs ys)"

text \<open>\<^verbatim>\<open>needle in haystack\<close> on strings.\<close>

fun is_substring :: "string \<Rightarrow> string \<Rightarrow> bool" where
  "is_substring needle [] = (needle = [])"
| "is_substring needle (y # ys) = (is_prefix needle (y # ys) \<or> is_substring needle ys)"

subsection \<open>The composite relevance score\<close>

definition path_boost_of :: "string list option \<Rightarrow> fl" where
  "path_boost_of path =
     (case path of
        None \<Rightarrow> Fin 1
      | Some p \<Rightarrow>
          if p = [] then Fin 1
          else
            (let path_length = length p;
                 b0 = (if path_length = 1 then float_lit 1.3
                       else if path_length = 2 then float_lit 1.15
                       else float_lit 1.05);
                 b1 = (if ''parent'' \<in> set p then fl_mul b0 (float_lit 1.2) else b0);
                 b2 = (if ''child'' \<in> set p then fl_mul b1 (float_lit 1.3) else b1)
             in b2))"

definition topic_boost_of :: "doc \<Rightarrow> string list \<Rightarrow> fl" where
  "topic_boost_of d topics =
     (let content = (if truthy (d_full_context d) then get_or (d_full_context d) []
                     else get_or (d_content d) []);
          header = get_or (d_header d) [];
          topic_matches =
            length (filter (\<lambda>topic. is_substring (lower topic) (lower (header @ '' '' @ content)))
                      topics)
      in if topic_matches > 0
         then fl_add (Fin 1) (fl_mul (fl_of_nat topic_matches) (float_lit 0.1))
         else Fin 1)"

definition level_boost_of :: "doc \<Rightarrow> fl" where
  "level_boost_of d =
     (let level = get_or (d_level d) 0
      in if level = 1 then float_lit 1.3 else if level = 2 then float_lit 1.2 else Fin 1)"

definition get_node_relevance_score ::
  "doc list \<Rightarrow> string \<Rightarrow> fl list \<Rightarrow> string list \<Rightarrow> string list option \<Rightarrow> fl" where
  "get_node_relevance_score store node_id query_embedding topics path =
     (case get_document_by_id store node_id of
        None \<Rightarrow> Fin 0
      | Some d \<Rightarrow>
          (case d_embedding d of
             None \<Rightarrow> Fin 0
           | Some emb \<Rightarrow>
               fl_mul (fl_mul (fl_mul (cosine_similarity query_embedding emb) (path_boost_of path))
                         (topic_boost_of d topics))
                 (level_boost_of d)))"

subsection \<open>The graph traversal\<close>

text \<open>
  The dictionaries built from the snapshot \<^verbatim>\<open>all_docs\<close> (lines 198 to 216): a later document
  with the same id overwrites an earlier one in \<^verbatim>\<open>doc_map\<close>; the two list-valued dictionaries
  append ids in snapshot order.
\<close>

definition doc_map :: "doc list \<Rightarrow> (string \<rightharpoonup> doc)" where
  "doc_map all_docs = fold (\<lambda>d m. m(d_id d \<mapsto> d)) all_docs Map.empty"

definition append_to :: "string \<Rightarrow> string \<Rightarrow> (string \<rightharpoonup> string list) \<Rightarrow> (string \<rightharpoonup> string list)" where
  "append_to k v m = m(k \<mapsto> get_or (m k) [] @ [v])"

definition parent_to_children :: "doc list \<Rightarrow> (string \<rightharpoonup> string list)" where
  "parent_to_children all_docs =
     fold (\<lambda>d m. if truthy (d_parent_chunk_id d)
                  then append_to (get_or (d_parent_chunk_id d) []) (d_id d) m else m)
          all_docs Map.empty"

definition page_to_chunks :: "doc list \<Rightarrow> (string \<rightharpoonup> string list)" where
  "page_to_chunks all_docs =
     fold (\<lambda>d m. if truthy (d_page_id d)
                  then append_to (get_or (d_page_id d) []) (d_id d) m else m)
          all_docs Map.empty"

text \<open>
  The dictionary \<^verbatim>\<open>relationship_counts\<close> is created with five keys and only ever updated at
  these keys, so it is a record of five counters; \<open>counts_dict\<close> is the dictionary returned.
\<close>

record rel_counts =
  n_parent :: int
  n_child :: int
  n_sibling :: int
  n_semantic :: int
  n_topic :: int

definition counts_dict :: "rel_counts \<Rightarrow> (string \<rightharpoonup> int)" where
  "counts_dict c =
     [''parent'' \<mapsto> n_parent c, ''child'' \<mapsto> n_child c, ''sibling'' \<mapsto> n_sibling c,
      ''semantic'' \<mapsto> n_semantic c, ''topic'' \<mapsto> n_topic c]"

text \<open>
  The loop state. \<open>visited\<close> is a Python set: the model keeps it as a list without
  repetitions, in insertion order (Python's iteration order is unspecified), so
  \<^verbatim>\<open>len(visited)\<close> is its length and \<^verbatim>\<open>visited.add\<close> is \<open>set_add\<close>.
\<close>

definition set_add :: "string \<Rightarrow> string list \<Rightarrow> string list" where
  "set_add x vs = (if x \<in> set vs then vs else vs @ [x])"

record tstate =
  visited :: "string list"
  nodes_to_explore :: "(string \<times> int) list"
  discovery_paths :: "string \<rightharpoonup> string list"
  relationship_counts :: rel_counts

text \<open>
  The four statements every strategy runs for a node it discovers: mark visited, enqueue at
  \<open>depth + 1\<close>, record the path of the current node extended by the hop label, and add one to
  a counter (given as the update \<open>bump\<close>).
\<close>

definition visit ::
  "string \<Rightarrow> (rel_counts \<Rightarrow> rel_counts) \<Rightarrow> string \<Rightarrow> int \<Rightarrow> string \<Rightarrow> tstate \<Rightarrow> tstate" where
  "visit label bump current_node depth x st =
     st\<lparr>visited := set_add x (visited st),
        nodes_to_explore := nodes_to_explore st @ [(x, depth + 1)],
        discovery_paths :=
          (discovery_paths st)(x \<mapsto> get_or (discovery_paths st current_node) [] @ [label]),
        relationship_counts := bump (relationship_counts st)\<rparr>"

definition bump_parent :: "rel_counts \<Rightarrow> rel_counts" where
  "bump_parent c = c\<lparr>n_parent := n_parent c + 1\<rparr>"

definition bump_child :: "rel_counts \<Rightarrow> rel_counts" where
  "bump_child c = c\<lparr>n_child := n_child c + 1\<rparr>"

definition bump_sibling :: "rel_counts \<Rightarrow> rel_counts" where
  "bump_sibling c = c\<lparr>n_sibling := n_sibling c + 1\<rparr>"

definition bump_semantic :: "rel_counts \<Rightarrow> rel_counts" where
  "bump_semantic c = c\<lparr>n_semantic := n_semantic c + 1\<rparr>"

definition bump_topic :: "rel_counts \<Rightarrow> rel_counts" where
  "bump_topic c = c\<lparr>n_topic := n_topic c + 1\<rparr>"

text \<open>Strategy 1 (lines 232 to 237).\<close>

definition parent_traversal :: "doc \<Rightarrow> string \<Rightarrow> int \<Rightarrow> tstate \<Rightarrow> tstate" where
  "parent_traversal d current_node depth st =
     (let parent_id = d_parent_chunk_id d
      in if truthy parent_id \<and> get_or parent_id [] \<notin> set (visited st)
         then visit ''parent'' bump_parent current_node depth (get_or parent_id []) st
         else st)"

text \<open>Strategy 2 (lines 240 to 246).\<close>

definition children_traversal :: "doc list \<Rightarrow> string \<Rightarrow> int \<Rightarrow> tstate \<Rightarrow> tstate" where
  "children_traversal all_docs current_node depth st =
     (let children = get_or (parent_to_children all_docs current_node) []
      in fold (\<lambda>child_id s.
                 if child_id \<notin> set (visited s)
                 then visit ''child'' bump_child current_node depth child_id s
                 else s)
              children st)"

text \<open>Strategy 3 (lines 249 to 256).\<close>

definition sibling_traversal :: "doc list \<Rightarrow> doc \<Rightarrow> string \<Rightarrow> int \<Rightarrow> tstate \<Rightarrow> tstate" where
  "sibling_traversal all_docs d current_node depth st =
     (let parent_id = d_parent_chunk_id d
      in if truthy parent_id
         then
           (let siblings = get_or (parent_to_children all_docs (get_or parent_id [])) []
            in fold (\<lambda>sibling_id s.
                       if sibling_id \<noteq> current_node \<and> sibling_id \<notin> set (visited s)
                       then visit ''sibling'' bump_sibling current_node depth sibling_id s
                       else s)
                    siblings st)
         else st)"

text \<open>
  Strategy 4 (lines 259 to 271): the hop is labelled \<^verbatim>\<open>"same_level"\<close> and the counter the
  source increments is \<^verbatim>\<open>relationship_counts["semantic"]\<close>.
\<close>

definition same_level_traversal :: "doc list \<Rightarrow> doc \<Rightarrow> string \<Rightarrow> int \<Rightarrow> tstate \<Rightarrow> tstate" where
  "same_level_traversal all_docs d current_node depth st =
     (let page_id = d_page_id d;
          level = get_or (d_level d) 0
      in if truthy page_id \<and> level > 0
         then
           (let same_page_chunks = get_or (page_to_chunks all_docs (get_or page_id [])) []
            in fold (\<lambda>chunk_id s.
                       if chunk_id \<noteq> current_node \<and> chunk_id \<notin> set (visited s)
                       then
                         (case doc_map all_docs chunk_id of
                            None \<Rightarrow> s
                          | Some chunk_doc \<Rightarrow>
                              if d_level chunk_doc = Some level
                              then visit ''same_level'' bump_semantic current_node depth chunk_id s
                              else s)
                       else s)
                    same_page_chunks st)
         else st)"

text \<open>
  Strategy 5 (lines 275 to 294): the hop is labelled \<^verbatim>\<open>"semantic"\<close> and the counter the source
  increments is \<^verbatim>\<open>relationship_counts["topic"]\<close>.
\<close>

definition semantic_neighbors :: "doc list \<Rightarrow> fl list \<Rightarrow> string list \<Rightarrow> (string \<times> fl) list" where
  "semantic_neighbors all_docs doc_embedding vis =
     concat (map (\<lambda>other_doc.
                    (case d_embedding other_doc of
                       None \<Rightarrow> []
                     | Some e \<Rightarrow>
                         if d_id other_doc \<notin> set vis \<and>
                            fl_lt (float_lit 0.85) (cosine_similarity doc_embedding e)
                         then [(d_id other_doc, cosine_similarity doc_embedding e)]
                         else []))
                 all_docs)"

definition semantic_traversal :: "doc list \<Rightarrow> doc \<Rightarrow> string \<Rightarrow> int \<Rightarrow> tstate \<Rightarrow> tstate" where
  "semantic_traversal all_docs d current_node depth st =
     (if length (visited st) mod 3 = 0 \<and> depth < 2
      then
        (if truthy (d_embedding d)
         then
           fold (\<lambda>(neighbor_id, sim) s. visit ''semantic'' bump_topic current_node depth neighbor_id s)
                (take 2 (sort_desc
                           (semantic_neighbors all_docs (get_or (d_embedding d) []) (visited st))))
                st
         else st)
      else st)"

text \<open>The body of the loop for a node that is in \<^verbatim>\<open>doc_map\<close> and below the depth bound.\<close>

definition expand :: "doc list \<Rightarrow> doc \<Rightarrow> string \<Rightarrow> int \<Rightarrow> tstate \<Rightarrow> tstate" where
  "expand all_docs d current_node depth st =
     semantic_traversal all_docs d current_node depth
       (same_level_traversal all_docs d current_node depth
          (sibling_traversal all_docs d current_node depth
             (children_traversal all_docs current_node depth
                (parent_traversal d current_node depth st))))"

text \<open>One iteration of the \<^verbatim>\<open>while\<close> loop (lines 220 to 294), entered with a non-empty worklist.\<close>

definition loop_body :: "doc list \<Rightarrow> int \<Rightarrow> tstate \<Rightarrow> tstate" where
  "loop_body all_docs max_depth st =
     (case nodes_to_explore st of
        [] \<Rightarrow> st
      | (current_node, depth) # rest \<Rightarrow>
          (let st1 = st\<lparr>nodes_to_explore := rest\<rparr>
           in if depth \<ge> max_depth then st1
              else (case doc_map all_docs current_node of
                      None \<Rightarrow> st1
                    | Some d \<Rightarrow> expand all_docs d current_node depth st1)))"

subsection \<open>The traversal loop terminates\<close>

text \<open>
  Every id the loop marks visited is the id of a snapshot document or the parent id of one, and
  whenever the loop body enqueues a node it also marks a new id visited. So each iteration either
  shrinks the set of unvisited ids of this finite universe or only pops the worklist.
\<close>

definition universe :: "doc list \<Rightarrow> string set" where
  "universe all_docs = set (map d_id all_docs) \<union> set (map (\<lambda>d. get_or (d_parent_chunk_id d) []) all_docs)"

definition ext :: "string set \<Rightarrow> tstate \<Rightarrow> tstate \<Rightarrow> bool" where
  "ext U st st' \<longleftrightarrow>
     set (visited st) \<subseteq> set (visited st') \<and> set (visited st') \<subseteq> set (visited st) \<union> U \<and>
     (set (visited st') = set (visited st) \<longrightarrow> nodes_to_explore st' = nodes_to_explore st)"

lemma ext_refl: "ext U st st"
  by (simp add: ext_def)

lemma ext_trans:
  assumes ab: "ext U a b" and bc: "ext U b c"
  shows "ext U a c"
proof -
  have s1: "set (visited a) \<subseteq> set (visited b)" and s2: "set (visited b) \<subseteq> set (visited c)"
    using ab bc by (simp_all add: ext_def)
  have u1: "set (visited b) \<subseteq> set (visited a) \<union> U"
    and u2: "set (visited c) \<subseteq> set (visited b) \<union> U"
    using ab bc by (simp_all add: ext_def)
  have q: "nodes_to_explore c = nodes_to_explore a" if eq: "set (visited c) = set (visited a)"
  proof -
    have "set (visited b) = set (visited a)" using s1 s2 eq by (simp add: subset_antisym)
    moreover from this have "set (visited c) = set (visited b)" using eq by simp
    ultimately show ?thesis using ab bc by (simp add: ext_def)
  qed
  have "set (visited a) \<subseteq> set (visited c)" using s1 s2 by (rule subset_trans)
  moreover have "set (visited c) \<subseteq> set (visited a) \<union> U" using u1 u2 by blast
  ultimately show ?thesis using q by (simp add: ext_def)
qed

lemma set_set_add: "set (set_add x vs) = insert x (set vs)"
  by (auto simp: set_add_def)

lemma visited_visit: "visited (visit l b c dp x st) = set_add x (visited st)"
  by (simp add: visit_def)

lemma ext_visit: "x \<in> U \<Longrightarrow> x \<notin> set (visited st) \<Longrightarrow> ext U st (visit l b c dp x st)"
  by (auto simp: ext_def visited_visit set_set_add)

lemma ext_fold:
  assumes "\<And>x s. x \<in> set xs \<Longrightarrow> ext U s (f x s)"
  shows "ext U st (fold f xs st)"
  using assms
proof (induction xs arbitrary: st)
  case Nil
  show ?case by (simp add: ext_refl)
next
  case (Cons x xs)
  have a: "ext U st (f x st)" using Cons.prems by simp
  have b: "ext U (f x st) (fold f xs (f x st))"
    by (rule Cons.IH) (simp add: Cons.prems)
  show ?case using ext_trans [OF a b] by simp
qed

lemma doc_map_fold:
  "fold (\<lambda>d m. m(d_id d \<mapsto> d)) ds m k = Some d \<Longrightarrow> (d \<in> set ds \<and> d_id d = k) \<or> m k = Some d"
proof (induction ds arbitrary: m)
  case Nil
  then show ?case by simp
next
  case (Cons a ds)
  from Cons.prems have "fold (\<lambda>d m. m(d_id d \<mapsto> d)) ds (m(d_id a \<mapsto> a)) k = Some d"
    by (simp only: fold_simps)
  from Cons.IH [OF this] show ?case
    by (auto split: if_splits)
qed

lemma doc_map_Some: "doc_map all_docs k = Some d \<Longrightarrow> d \<in> set all_docs \<and> d_id d = k"
  using doc_map_fold [of all_docs Map.empty k d] by (simp add: doc_map_def)

lemma append_fold:
  "fold (\<lambda>d m. if P d then append_to (key d) (d_id d) m else m) ds m k = Some cs
     \<Longrightarrow> set cs \<subseteq> d_id ` set ds \<union> set (get_or (m k) [])"
proof (induction ds arbitrary: m)
  case Nil
  then show ?case by (simp add: get_or_def)
next
  case (Cons d ds)
  let ?m' = "if P d then append_to (key d) (d_id d) m else m"
  have "set cs \<subseteq> d_id ` set ds \<union> set (get_or (?m' k) [])"
    using Cons.IH [of ?m'] Cons.prems by simp
  moreover have "set (get_or (?m' k) []) \<subseteq> insert (d_id d) (set (get_or (m k) []))"
    by (auto simp: append_to_def get_or_def split: option.splits)
  ultimately show ?case by auto
qed

lemma parent_to_children_ids:
  "set (get_or (parent_to_children all_docs k) []) \<subseteq> d_id ` set all_docs"
proof (cases "parent_to_children all_docs k")
  case None
  then show ?thesis by (simp add: get_or_def)
next
  case (Some cs)
  then show ?thesis
    using append_fold [of "\<lambda>d. truthy (d_parent_chunk_id d)" "\<lambda>d. get_or (d_parent_chunk_id d) []" all_docs Map.empty k cs]
    by (simp add: parent_to_children_def get_or_def)
qed

lemma page_to_chunks_ids:
  "set (get_or (page_to_chunks all_docs k) []) \<subseteq> d_id ` set all_docs"
proof (cases "page_to_chunks all_docs k")
  case None
  then show ?thesis by (simp add: get_or_def)
next
  case (Some cs)
  then show ?thesis
    using append_fold [of "\<lambda>d. truthy (d_page_id d)" "\<lambda>d. get_or (d_page_id d) []" all_docs Map.empty k cs]
    by (simp add: page_to_chunks_def get_or_def)
qed

lemma ids_universe: "d_id ` set all_docs \<subseteq> universe all_docs"
  by (auto simp: universe_def)

lemma parent_universe: "d \<in> set all_docs \<Longrightarrow> get_or (d_parent_chunk_id d) [] \<in> universe all_docs"
  by (auto simp: universe_def)

lemma ext_parent:
  "d \<in> set all_docs \<Longrightarrow> ext (universe all_docs) st (parent_traversal d c dp st)"
  by (simp add: parent_traversal_def Let_def ext_refl ext_visit parent_universe)

lemma ext_children: "ext (universe all_docs) st (children_traversal all_docs c dp st)"
  unfolding children_traversal_def Let_def
proof (rule ext_fold)
  fix x s
  assume "x \<in> set (get_or (parent_to_children all_docs c) [])"
  then have "x \<in> universe all_docs"
    using parent_to_children_ids ids_universe by blast
  then show "ext (universe all_docs) s
          (if x \<notin> set (visited s) then visit ''child'' bump_child c dp x s else s)"
    by (simp add: ext_visit ext_refl)
qed

lemma ext_sibling: "ext (universe all_docs) st (sibling_traversal all_docs d c dp st)"
proof (cases "truthy (d_parent_chunk_id d)")
  case False
  then show ?thesis by (simp add: sibling_traversal_def ext_refl)
next
  case True
  then have eq: "sibling_traversal all_docs d c dp st =
     fold (\<lambda>sibling_id s.
               if sibling_id \<noteq> c \<and> sibling_id \<notin> set (visited s)
               then visit ''sibling'' bump_sibling c dp sibling_id s else s)
        (get_or (parent_to_children all_docs (get_or (d_parent_chunk_id d) [])) []) st"
    by (simp add: sibling_traversal_def Let_def)
  show ?thesis
    unfolding eq
  proof (rule ext_fold)
    fix x s
    assume "x \<in> set (get_or (parent_to_children all_docs (get_or (d_parent_chunk_id d) [])) [])"
    then have "x \<in> universe all_docs"
      using parent_to_children_ids ids_universe by blast
    then show "ext (universe all_docs) s
          (if x \<noteq> c \<and> x \<notin> set (visited s) then visit ''sibling'' bump_sibling c dp x s else s)"
      by (simp add: ext_visit ext_refl)
  qed
qed

lemma ext_same_level: "ext (universe all_docs) st (same_level_traversal all_docs d c dp st)"
proof (cases "truthy (d_page_id d) \<and> get_or (d_level d) 0 > 0")
  case False
  then have "same_level_traversal all_docs d c dp st = st"
    unfolding same_level_traversal_def Let_def by (simp only: if_False)
  then show ?thesis by (simp add: ext_refl)
next
  case True
  let ?level = "get_or (d_level d) 0"
  from True have eq: "same_level_traversal all_docs d c dp st =
     fold (\<lambda>chunk_id s.
               if chunk_id \<noteq> c \<and> chunk_id \<notin> set (visited s)
               then (case doc_map all_docs chunk_id of
                       None \<Rightarrow> s
                     | Some chunk_doc \<Rightarrow>
                         if d_level chunk_doc = Some ?level
                         then visit ''same_level'' bump_semantic c dp chunk_id s
                         else s)
               else s)
        (get_or (page_to_chunks all_docs (get_or (d_page_id d) [])) []) st"
    by (simp add: same_level_traversal_def Let_def)
  show ?thesis
    unfolding eq
  proof (rule ext_fold)
    fix x s
    assume "x \<in> set (get_or (page_to_chunks all_docs (get_or (d_page_id d) [])) [])"
    then have "x \<in> universe all_docs"
      using page_to_chunks_ids ids_universe by blast
    then show "ext (universe all_docs) s
          (if x \<noteq> c \<and> x \<notin> set (visited s)
               then (case doc_map all_docs x of
                       None \<Rightarrow> s
                     | Some chunk_doc \<Rightarrow>
                         if d_level chunk_doc = Some ?level
                         then visit ''same_level'' bump_semantic c dp x s
                         else s)
               else s)"
      by (simp add: ext_visit ext_refl split: option.splits)
  qed
qed


lemma set_insert_desc: "set (insert_desc x xs) = insert x (set xs)"
  by (induction xs) auto

lemma set_sort_desc: "set (sort_desc xs) = set xs"
  by (induction xs) (simp_all add: sort_desc_def set_insert_desc)

lemma semantic_neighbors_set:
  "(x, s) \<in> set (semantic_neighbors all_docs e vis) \<Longrightarrow> x \<in> d_id ` set all_docs \<and> x \<notin> set vis"
  by (auto simp: semantic_neighbors_def split: option.splits if_splits)

lemma fold_visit_visited:
  "set (visited (fold (\<lambda>(n, sim) s. visit l b c dp n s) ns st)) = set (visited st) \<union> fst ` set ns"
  by (induction ns arbitrary: st) (auto simp: visited_visit set_set_add)

lemma ext_fold_visit:
  assumes "fst ` set ns \<subseteq> U" and "fst ` set ns \<inter> set (visited st) = {}"
  shows "ext U st (fold (\<lambda>(n, sim) s. visit l b c dp n s) ns st)"
proof (cases ns)
  case Nil
  then show ?thesis by (simp add: ext_refl)
next
  case (Cons p ps)
  then have "fst p \<in> fst ` set ns" by simp
  then have "fst p \<notin> set (visited st)" using assms(2) by blast
  moreover have "fst p \<in> set (visited (fold (\<lambda>(n, sim) s. visit l b c dp n s) ns st))"
    unfolding fold_visit_visited using Cons by simp
  ultimately have "set (visited (fold (\<lambda>(n, sim) s. visit l b c dp n s) ns st)) \<noteq> set (visited st)"
    by metis
  then show ?thesis
    using assms(1) by (auto simp add: ext_def fold_visit_visited)
qed

lemma ext_semantic: "ext (universe all_docs) st (semantic_traversal all_docs d c dp st)"
proof (cases "length (visited st) mod 3 = 0 \<and> dp < 2 \<and> truthy (d_embedding d)")
  case False
  then have "semantic_traversal all_docs d c dp st = st"
    by (auto simp: semantic_traversal_def)
  then show ?thesis by (simp add: ext_refl)
next
  case True
  let ?ns = "take 2 (sort_desc (semantic_neighbors all_docs (get_or (d_embedding d) []) (visited st)))"
  from True have eq: "semantic_traversal all_docs d c dp st =
      fold (\<lambda>(n, sim) s. visit ''semantic'' bump_topic c dp n s) ?ns st"
    by (simp add: semantic_traversal_def)
  have sub: "set ?ns \<subseteq> set (semantic_neighbors all_docs (get_or (d_embedding d) []) (visited st))"
    using set_take_subset [of 2 "sort_desc (semantic_neighbors all_docs (get_or (d_embedding d) []) (visited st))"]
    by (simp add: set_sort_desc)
  have a: "fst ` set ?ns \<subseteq> universe all_docs"
    using sub semantic_neighbors_set ids_universe by fastforce
  have b: "fst ` set ?ns \<inter> set (visited st) = {}"
    using sub semantic_neighbors_set by fastforce
  show ?thesis unfolding eq by (rule ext_fold_visit [OF a b])
qed

lemma ext_expand:
  "d \<in> set all_docs \<Longrightarrow> ext (universe all_docs) st (expand all_docs d c dp st)"
  unfolding expand_def
  by (rule ext_trans [OF ext_trans [OF ext_trans [OF ext_trans [OF ext_parent ext_children]
        ext_sibling] ext_same_level] ext_semantic])

lemma ext_queue: "ext U (st\<lparr>nodes_to_explore := q\<rparr>) st' \<Longrightarrow>
   set (visited st) \<subseteq> set (visited st') \<and> set (visited st') \<subseteq> set (visited st) \<union> U \<and>
     (set (visited st') = set (visited st) \<longrightarrow> nodes_to_explore st' = q)"
  by (simp add: ext_def)

lemma loop_body_ext:
  assumes "nodes_to_explore st = (c, dp) # rest"
  shows "set (visited st) \<subseteq> set (visited (loop_body all_docs max_depth st)) \<and>
         set (visited (loop_body all_docs max_depth st)) \<subseteq> set (visited st) \<union> universe all_docs \<and>
         (set (visited (loop_body all_docs max_depth st)) = set (visited st) \<longrightarrow>
            nodes_to_explore (loop_body all_docs max_depth st) = rest)"
proof (cases "dp \<ge> max_depth")
  case True
  then show ?thesis using assms by (simp add: loop_body_def)
next
  case False
  show ?thesis
  proof (cases "doc_map all_docs c")
    case None
    then show ?thesis using assms False by (simp add: loop_body_def)
  next
    case (Some d)
    then have "d \<in> set all_docs" using doc_map_Some by blast
    then have "ext (universe all_docs) (st\<lparr>nodes_to_explore := rest\<rparr>)
                 (expand all_docs d c dp (st\<lparr>nodes_to_explore := rest\<rparr>))"
      by (rule ext_expand)
    from ext_queue [OF this] show ?thesis using assms False Some by (simp add: loop_body_def)
  qed
qed

lemma finite_universe: "finite (universe all_docs)"
  by (simp add: universe_def)

lemma loop_body_decreases:
  assumes "nodes_to_explore st \<noteq> []"
  shows "card (universe all_docs - set (visited (loop_body all_docs max_depth st)))
           < card (universe all_docs - set (visited st))
         \<or> (card (universe all_docs - set (visited (loop_body all_docs max_depth st)))
              = card (universe all_docs - set (visited st))
            \<and> length (nodes_to_explore (loop_body all_docs max_depth st)) < length (nodes_to_explore st))"
proof -
  obtain c dp rest where q: "nodes_to_explore st = (c, dp) # rest"
    using assms by (cases "nodes_to_explore st") auto
  let ?st' = "loop_body all_docs max_depth st"
  let ?U = "universe all_docs"
  note e = loop_body_ext [OF q, of all_docs max_depth]
  show ?thesis
  proof (cases "set (visited ?st') = set (visited st)")
    case True
    then have "nodes_to_explore ?st' = rest" using e by simp
    then show ?thesis using True q by simp
  next
    case False
    then obtain x where x: "x \<in> set (visited ?st')" "x \<notin> set (visited st)"
      using e by blast
    then have "x \<in> ?U" using e by blast
    then have "?U - set (visited ?st') \<subset> ?U - set (visited st)"
      using x e by blast
    then show ?thesis
      using finite_universe [of all_docs] by (simp add: psubset_card_mono)
  qed
qed

text \<open>The \<^verbatim>\<open>while\<close> loop of line 219.\<close>

function traverse_loop :: "doc list \<Rightarrow> int \<Rightarrow> int \<Rightarrow> tstate \<Rightarrow> tstate" where
  "traverse_loop all_docs max_nodes max_depth st =
     (if nodes_to_explore st \<noteq> [] \<and> int (length (visited st)) < max_nodes
      then traverse_loop all_docs max_nodes max_depth (loop_body all_docs max_depth st)
      else st)"
  by pat_completeness auto
termination
proof (relation "measures [\<lambda>(all_docs, max_nodes, max_depth, st). card (universe all_docs - set (visited st)),
                           \<lambda>(all_docs, max_nodes, max_depth, st). length (nodes_to_explore st)]")
  show "wf (measures [\<lambda>(all_docs, max_nodes, max_depth, st). card (universe all_docs - set (visited st)),
                           \<lambda>(all_docs, max_nodes, max_depth, st). length (nodes_to_explore st)])"
    by simp
next
  fix all_docs :: "doc list" and max_nodes max_depth :: int and st :: tstate
  assume "nodes_to_explore st \<noteq> [] \<and> int (length (visited st)) < max_nodes"
  then have "nodes_to_explore st \<noteq> []" by simp
  from loop_body_decreases [OF this, of all_docs max_depth]
  show "((all_docs, max_nodes, max_depth, loop_body all_docs max_depth st), all_docs, max_nodes, max_depth, st)
       \<in> measures [\<lambda>(all_docs, max_nodes, max_depth, st). card (universe all_docs - set (visited st)),
                           \<lambda>(all_docs, max_nodes, max_depth, st). length (nodes_to_explore st)]"
    by auto
qed

declare traverse_loop.simps [simp del]

text \<open>
  \<^verbatim>\<open>_traverse_graph\<close>. Its parameters \<^verbatim>\<open>query_embedding\<close> and \<^verbatim>\<open>topics\<close> are not used by
  the body and are left out. \<open>all_docs\<close> is the snapshot \<^verbatim>\<open>self.collection.find({}, ...)\<close>.
\<close>

record traversal_result =
  visited_nodes :: "string list"
  tr_discovery_paths :: "string \<rightharpoonup> string list"
  tr_relationship_counts :: "string \<rightharpoonup> int"

definition initial_state :: "string list \<Rightarrow> tstate" where
  "initial_state seed_nodes =
     \<lparr>visited = remdups seed_nodes,
      nodes_to_explore = map (\<lambda>node. (node, 0)) seed_nodes,
      discovery_paths = map_of (map (\<lambda>node. (node, [''seed''])) seed_nodes),
      relationship_counts = \<lparr>n_parent = 0, n_child = 0, n_sibling = 0, n_semantic = 0, n_topic = 0\<rparr>\<rparr>"

definition traverse_graph :: "doc list \<Rightarrow> string list \<Rightarrow> int \<Rightarrow> int \<Rightarrow> traversal_result" where
  "traverse_graph all_docs seed_nodes max_nodes max_depth =
     (let st = traverse_loop all_docs max_nodes max_depth (initial_state seed_nodes)
      in \<lparr>visited_nodes = visited st,
          tr_discovery_paths = discovery_paths st,
          tr_relationship_counts = counts_dict (relationship_counts st)\<rparr>)"

subsection \<open>The search orchestrator\<close>

text \<open>\<^verbatim>\<open>xs[:n]\<close> for a Python int \<open>n\<close>: a negative \<open>n\<close> counts from the end.\<close>

definition py_take :: "int \<Rightarrow> 'a list \<Rightarrow> 'a list" where
  "py_take n xs = (if n \<ge> 0 then take (nat n) xs else take (nat (int (length xs) + n)) xs)"

definition score_documents :: "fl list \<Rightarrow> doc list \<Rightarrow> (doc \<times> fl) list" where
  "score_documents query_embedding documents =
     sort_desc (concat (map (\<lambda>d. if truthy (d_embedding d)
                                   then [(d, cosine_similarity query_embedding (get_or (d_embedding d) []))]
                                   else [])
                            documents))"

text \<open>
  The statistics of a query; \<^verbatim>\<open>execution_time_seconds\<close> is wall-clock time and is left out.
  \<^verbatim>\<open>graph_stats\<close> is either these statistics or \<^verbatim>\<open>{"error": message}\<close>.
\<close>

record query_stats =
  seed_nodes :: int
  graph_traversed_nodes :: int
  total_nodes :: int
  qs_relationship_counts :: "string \<rightharpoonup> int"
  qs_topics :: "string list"
  qs_discovery_paths :: "string \<rightharpoonup> string list"

datatype graph_stats = StatsError string | Stats query_stats

record search_result =
  documents :: "string list"
  scores :: "fl list"
  graph_stats :: graph_stats

text \<open>
  \<^verbatim>\<open>search\<close>. \<open>embedding\<close> is the outcome of \<^verbatim>\<open>self._compute_embedding(query)\<close>: \<open>Inl msg\<close>
  when it raises an exception whose text is \<open>msg\<close> (caught by the \<^verbatim>\<open>except\<close> of line 410),
  \<open>Inr v\<close> when it returns \<open>v\<close>. \<open>topics\<close> is the value of
  \<^verbatim>\<open>self._extract_topics_from_query(query)\<close>.
\<close>

definition search ::
  "doc list \<Rightarrow> string + fl list \<Rightarrow> string list \<Rightarrow> int \<Rightarrow> int \<Rightarrow> int \<Rightarrow> search_result" where
  "search store embedding topics n_seed_results n_total_results max_traversal_depth =
     (case embedding of
        Inl e \<Rightarrow>
          \<lparr>documents = [''Error searching for information: '' @ e],
           scores = [Fin 0],
           graph_stats = StatsError e\<rparr>
      | Inr query_embedding \<Rightarrow>
          (let all_docs = filter (\<lambda>d. d_embedding d \<noteq> None) store
           in if all_docs = []
              then \<lparr>documents = [''No information found in the database.''],
                    scores = [Fin 0],
                    graph_stats = StatsError ''No documents with embeddings found''\<rparr>
              else
                (let scored_docs = score_documents query_embedding all_docs;
                     seed_docs = py_take n_seed_results scored_docs;
                     seed_node_ids = map (\<lambda>(d, s). d_id d) seed_docs;
                     traversal_result =
                       traverse_graph store seed_node_ids (n_total_results * 3) max_traversal_depth;
                     all_visited_node_ids = visited_nodes traversal_result;
                     paths = tr_discovery_paths traversal_result;
                     final_scores =
                       sort_desc (map (\<lambda>node_id.
                                         (node_id,
                                          get_node_relevance_score store node_id query_embedding topics
                                            (paths node_id)))
                                      all_visited_node_ids);
                     top = py_take n_total_results final_scores;
                     top_node_ids = map fst top;
                     found = concat (map (\<lambda>(node_id, score).
                                            (case get_document_by_id store node_id of
                                               None \<Rightarrow> []
                                             | Some d \<Rightarrow>
                                                 [(get_or (d_full_context d) ''No context available'',
                                                   score)]))
                                         top)
                 in \<lparr>documents = map fst found,
                     scores = map snd found,
                     graph_stats =
                       Stats \<lparr>seed_nodes = int (length seed_node_ids),
                              graph_traversed_nodes =
                                int (length all_visited_node_ids) - int (length seed_node_ids),
                              total_nodes = int (length all_visited_node_ids),
                              qs_relationship_counts = tr_relationship_counts traversal_result,
                              qs_topics = topics,
                              qs_discovery_paths = paths |` set top_node_ids\<rparr>\<rparr>)))"

subsection \<open>The header-based chunker\<close>

text \<open>
  \<^verbatim>\<open>chunk_content\<close> works on \<^verbatim>\<open>all_elements\<close>, the elements BeautifulSoup's \<^verbatim>\<open>find_all\<close>
  returns for the eleven tag names, in document order. The model starts from that list: an
  element is its tag name and its children; a child is a \<^verbatim>\<open>pre\<close> element, a \<^verbatim>\<open>code\<close> element
  or anything else, each carrying its text.
\<close>

datatype tag = H1 | H2 | H3 | H4 | H5 | H6 | Para | Div | Ul | Ol | Table

datatype child = Pre string | Code string | Other string

record element =
  el_name :: tag
  el_children :: "child list"

fun child_text :: "child \<Rightarrow> string" where
  "child_text (Pre s) = s"
| "child_text (Code s) = s"
| "child_text (Other s) = s"

definition get_text :: "element \<Rightarrow> string" where
  "get_text e = concat (map child_text (el_children e))"

text \<open>
  \<^verbatim>\<open>str.strip()\<close> removes the characters for which \<^verbatim>\<open>str.isspace()\<close> holds; among the
  code points below 256 these are 0x09 to 0x0D, 0x1C to 0x20, 0x85 and 0xA0.
\<close>

definition is_space :: "char \<Rightarrow> bool" where
  "is_space c \<longleftrightarrow>
     c \<in> set [CHR 0x09, CHR 0x0A, CHR 0x0B, CHR 0x0C, CHR 0x0D,
               CHR 0x1C, CHR 0x1D, CHR 0x1E, CHR 0x1F, CHR 0x20, CHR 0x85, CHR 0xA0]"

definition strip :: "string \<Rightarrow> string" where
  "strip s = rev (dropWhile is_space (rev (dropWhile is_space s)))"

text \<open>\<^verbatim>\<open>sep.join(xs)\<close>.\<close>

fun join :: "string \<Rightarrow> string list \<Rightarrow> string" where
  "join sep [] = []"
| "join sep [x] = x"
| "join sep (x # y # ys) = x @ sep @ join sep (y # ys)"

fun code_piece :: "child \<Rightarrow> string" where
  "code_piece (Pre code) = [CHR ''`'', CHR ''`'', CHR ''`'', CHR 0x0A] @ code @ [CHR 0x0A, CHR ''`'', CHR ''`'', CHR ''`'']"
| "code_piece (Code s) = [CHR ''`''] @ s @ [CHR ''`'']"
| "code_piece (Other s) = s"

definition extract_text_with_code :: "element \<Rightarrow> string" where
  "extract_text_with_code e = strip (join '' '' (map code_piece (el_children e)))"

text \<open>
  \<^verbatim>\<open>element.name in self.header_tags\<close> and \<^verbatim>\<open>int(element.name[1]) - 1\<close>: the 0-based level of
  a heading tag, \<open>None\<close> for the other tags.
\<close>

fun header_level_of :: "tag \<Rightarrow> nat option" where
  "header_level_of H1 = Some 0"
| "header_level_of H2 = Some 1"
| "header_level_of H3 = Some 2"
| "header_level_of H4 = Some 3"
| "header_level_of H5 = Some 4"
| "header_level_of H6 = Some 5"
| "header_level_of _ = None"

text \<open>Decimal digits of a number, for \<^verbatim>\<open>f"{page_id}-chunk-{i}"\<close>.\<close>

fun str_of_nat :: "nat \<Rightarrow> string" where
  "str_of_nat n =
     (if n < 10 then [''0123456789'' ! n]
      else str_of_nat (n div 10) @ [''0123456789'' ! (n mod 10)])"

declare str_of_nat.simps [simp del]

definition chunk_id_of :: "string \<Rightarrow> nat \<Rightarrow> string" where
  "chunk_id_of page_id i = page_id @ ''-chunk-'' @ str_of_nat i"

record path_entry =
  pe_level :: nat
  pe_text :: string
  pe_chunk_id :: string

text \<open>
  A chunk dictionary. \<open>content\<close> and \<open>full_context\<close> are \<open>None\<close> until the chunk is closed
  (the keys are set only then).
\<close>

record chunk =
  header :: string
  level :: nat
  parent_chunk_id :: "string option"
  parent_header :: "string option"
  header_path :: "path_entry list"
  depth :: nat
  children :: "string list"
  content :: "string option"
  full_context :: "string option"

text \<open>
  The state of the loop over the elements. The source names both the method and its local
  buffer \<^verbatim>\<open>chunk_content\<close>; the buffer is \<open>content_buffer\<close> here. A slot of
  \<^verbatim>\<open>current_headers\<close> is \<open>None\<close> or the pair of \<^verbatim>\<open>'text'\<close> and \<^verbatim>\<open>'chunk_index'\<close>.
\<close>

record cstate =
  chunks :: "chunk list"
  current_headers :: "(string \<times> nat) option list"
  current_chunk :: "chunk option"
  content_buffer :: "string list"

definition initial_cstate :: cstate where
  "initial_cstate =
     \<lparr>chunks = [], current_headers = replicate 6 None, current_chunk = None, content_buffer = []\<rparr>"

text \<open>Lines 262 to 265 and 319 to 322: save the open chunk if it exists and has content.\<close>

definition save_chunk :: "cstate \<Rightarrow> cstate" where
  "save_chunk st =
     (case current_chunk st of
        None \<Rightarrow> st
      | Some c \<Rightarrow>
          if content_buffer st \<noteq> []
          then
            (let body = join [CHR 0x0A] (content_buffer st)
             in st\<lparr>chunks := chunks st @
                      [c\<lparr>content := Some body,
                         full_context :=
                           Some (header c @ [CHR 0x0A] @ replicate (length (header c)) CHR ''=''
                                 @ [CHR 0x0A] @ body)\<rparr>]\<rparr>)
          else st)"

text \<open>
  Lines 280 to 287: scan the slots above the heading from the nearest one upwards; the first
  slot that is not \<open>None\<close> ends the scan, and gives the parent only if its chunk index is
  below the number of chunks saved so far.
\<close>

fun find_parent ::
  "nat list \<Rightarrow> (string \<times> nat) option list \<Rightarrow> nat \<Rightarrow> string \<Rightarrow> string option \<times> string option" where
  "find_parent [] hs n page_id = (None, None)"
| "find_parent (i # is) hs n page_id =
     (case hs ! i of
        None \<Rightarrow> find_parent is hs n page_id
      | Some (txt, chunk_index) \<Rightarrow>
          if n > chunk_index then (Some (chunk_id_of page_id chunk_index), Some txt)
          else (None, None))"

definition build_header_path :: "nat \<Rightarrow> (string \<times> nat) option list \<Rightarrow> string \<Rightarrow> path_entry list" where
  "build_header_path header_level hs page_id =
     concat (map (\<lambda>i. case hs ! i of
                         None \<Rightarrow> []
                       | Some (txt, chunk_index) \<Rightarrow>
                           [\<lparr>pe_level = i + 1, pe_text = txt,
                             pe_chunk_id = chunk_id_of page_id chunk_index\<rparr>])
                 [0..<header_level])"

text \<open>The body of the loop over \<^verbatim>\<open>all_elements\<close> (lines 258 to 316).\<close>

definition process_element :: "string \<Rightarrow> element \<Rightarrow> cstate \<Rightarrow> cstate" where
  "process_element page_id e st =
     (case header_level_of (el_name e) of
        Some header_level \<Rightarrow>
          (let st1 = save_chunk st;
               header_text = strip (get_text e);
               hs1 = (current_headers st1)[header_level := Some (header_text, length (chunks st1))];
               hs2 = fold (\<lambda>i hs. hs[i := None]) [header_level + 1..<6] hs1;
               (parent_id, parent_header_text) =
                 find_parent (rev [0..<header_level]) hs2 (length (chunks st1)) page_id
           in st1\<lparr>current_headers := hs2,
                  current_chunk :=
                    Some \<lparr>header = header_text,
                          level = header_level + 1,
                          parent_chunk_id = parent_id,
                          parent_header = parent_header_text,
                          header_path = build_header_path header_level hs2 page_id,
                          depth = header_level,
                          children = [],
                          content = None,
                          full_context = None\<rparr>,
                  content_buffer := []\<rparr>)
      | None \<Rightarrow>
          (case current_chunk st of
             None \<Rightarrow> st
           | Some c \<Rightarrow>
               (let txt = extract_text_with_code e
                in if strip txt \<noteq> [] then st\<lparr>content_buffer := content_buffer st @ [txt]\<rparr>
                   else st)))"

text \<open>Lines 325 to 333: the pass that fills the \<^verbatim>\<open>children\<close> lists.\<close>

definition chunk_map :: "string \<Rightarrow> nat \<Rightarrow> (string \<rightharpoonup> nat)" where
  "chunk_map page_id n = fold (\<lambda>i m. m(chunk_id_of page_id i \<mapsto> i)) [0..<n] Map.empty"

definition add_child :: "string \<Rightarrow> (string \<rightharpoonup> nat) \<Rightarrow> nat \<Rightarrow> chunk list \<Rightarrow> chunk list" where
  "add_child page_id cmap i cs =
     (if truthy (parent_chunk_id (cs ! i))
      then (case cmap (get_or (parent_chunk_id (cs ! i)) []) of
              None \<Rightarrow> cs
            | Some parent_idx \<Rightarrow>
                cs[parent_idx :=
                     (cs ! parent_idx)\<lparr>children := children (cs ! parent_idx) @ [chunk_id_of page_id i]\<rparr>])
      else cs)"

definition fill_children :: "string \<Rightarrow> chunk list \<Rightarrow> chunk list" where
  "fill_children page_id cs =
     fold (add_child page_id (chunk_map page_id (length cs))) [0..<length cs] cs"

definition chunk_content :: "element list \<Rightarrow> string \<Rightarrow> chunk list" where
  "chunk_content all_elements page_id =
     fill_children page_id
       (chunks (save_chunk (fold (process_element page_id) all_elements initial_cstate)))"

text \<open>
  The sections of a document, for stating what the chunker returns: every heading element with
  the run of non-heading elements that follows it. Elements before the first heading belong to
  no section.
\<close>

definition is_heading :: "element \<Rightarrow> bool" where
  "is_heading e \<longleftrightarrow> header_level_of (el_name e) \<noteq> None"

definition body_texts :: "element list \<Rightarrow> string list" where
  "body_texts bs = filter (\<lambda>t. strip t \<noteq> []) (map extract_text_with_code bs)"

function sections :: "element list \<Rightarrow> (element \<times> element list) list" where
  "sections [] = []"
| "sections (e # es) =
     (if is_heading e
      then (e, takeWhile (\<lambda>x. \<not> is_heading x) es) # sections (dropWhile (\<lambda>x. \<not> is_heading x) es)
      else sections es)"
  by pat_completeness auto
termination
  by (relation "measure length") (auto simp: length_dropWhile_le less_Suc_eq_le)

definition heading_text :: "element \<Rightarrow> string" where
  "heading_text e = strip (get_text e)"

definition has_body :: "element list \<Rightarrow> bool" where
  "has_body bs \<longleftrightarrow> body_texts bs \<noteq> []"

text \<open>The heading texts of the sections whose body has some non-blank text, in document order.\<close>

definition section_headers :: "element list \<Rightarrow> string list" where
  "section_headers es = map (\<lambda>(h, bs). heading_text h) (filter (\<lambda>(h, bs). has_body bs) (sections es))"

subsection \<open>Example data\<close>

text \<open>A store with one level-3 node whose embedding is the unit vector \<open>(1, 0)\<close>.\<close>

definition intro_doc :: doc where
  "intro_doc =
     \<lparr>d_id = ''n1'', d_page_id = Some ''pg'', d_header = Some ''Intro'', d_level = Some 3,
      d_content = Some ''text'', d_full_context = Some ''Intro text'',
      d_embedding = Some [Fin 1, Fin 0], d_parent_chunk_id = None\<rparr>"

text \<open>
  A page with a top heading \<open>P\<close>, its children \<open>A\<close> and \<open>B\<close>, and \<open>C\<close> below \<open>A\<close>;
  none of the nodes has an embedding.
\<close>

definition doc_P :: doc where
  "doc_P = \<lparr>d_id = ''P'', d_page_id = Some ''pg'', d_header = Some ''Parent'', d_level = Some 1,
      d_content = Some ''p'', d_full_context = Some ''Parent p'', d_embedding = None,
      d_parent_chunk_id = None\<rparr>"

definition doc_A :: doc where
  "doc_A = \<lparr>d_id = ''A'', d_page_id = Some ''pg'', d_header = Some ''Alpha'', d_level = Some 2,
      d_content = Some ''a'', d_full_context = Some ''Alpha a'', d_embedding = None,
      d_parent_chunk_id = Some ''P''\<rparr>"

definition doc_C :: doc where
  "doc_C = \<lparr>d_id = ''C'', d_page_id = Some ''pg'', d_header = Some ''Gamma'', d_level = Some 3,
      d_content = Some ''c'', d_full_context = Some ''Gamma c'', d_embedding = None,
      d_parent_chunk_id = Some ''A''\<rparr>"

definition doc_B :: doc where
  "doc_B = \<lparr>d_id = ''B'', d_page_id = Some ''pg'', d_header = Some ''Beta'', d_level = Some 2,
      d_content = Some ''b'', d_full_context = Some ''Beta b'', d_embedding = None,
      d_parent_chunk_id = Some ''P''\<rparr>"

definition family_docs :: "doc list" where
  "family_docs = [doc_P, doc_A, doc_C, doc_B]"

text \<open>Two level-2 nodes of one page with no parent and no embedding.\<close>

definition doc_X :: doc where
  "doc_X = \<lparr>d_id = ''X'', d_page_id = Some ''pg'', d_header = Some ''Setup'', d_level = Some 2,
      d_content = Some ''x'', d_full_context = Some ''Setup x'', d_embedding = None,
      d_parent_chunk_id = None\<rparr>"

definition doc_Y :: doc where
  "doc_Y = \<lparr>d_id = ''Y'', d_page_id = Some ''pg'', d_header = Some ''Usage'', d_level = Some 2,
      d_content = Some ''y'', d_full_context = Some ''Usage y'', d_embedding = None,
      d_parent_chunk_id = None\<rparr>"

text \<open>A node with an embedding whose \<^verbatim>\<open>parent_chunk_id\<close> names a node that is not stored.\<close>

definition orphan_doc :: doc where
  "orphan_doc = \<lparr>d_id = ''A'', d_page_id = Some ''pg'', d_header = Some ''Alpha'', d_level = Some 2,
      d_content = Some ''a'', d_full_context = Some ''Alpha a'', d_embedding = Some [Fin 1, Fin 0],
      d_parent_chunk_id = Some ''gone''\<rparr>"

text \<open>Elements with a single text child, for examples of documents.\<close>

definition heading_el :: "tag \<Rightarrow> string \<Rightarrow> element" where
  "heading_el t s = \<lparr>el_name = t, el_children = [Other s]\<rparr>"

definition paragraph_el :: "string \<Rightarrow> element" where
  "paragraph_el s = \<lparr>el_name = Para, el_children = [Other s]\<rparr>"

subsection \<open>Auxiliary notions for the proofs\<close>

text \<open>
  A visited list is saturated for a snapshot when it holds the id and the (truthy) parent id of
  every document: no strategy can then discover anything.
\<close>

definition saturated :: "doc list \<Rightarrow> string list \<Rightarrow> bool" where
  "saturated all_docs vis \<longleftrightarrow>
     (\<forall>d \<in> set all_docs. d_id d \<in> set vis \<and>
        (truthy (d_parent_chunk_id d) \<longrightarrow> get_or (d_parent_chunk_id d) [] \<in> set vis))"

text \<open>The header an open chunk will contribute once it is saved, if it has content.\<close>

definition pending :: "chunk option \<Rightarrow> bool \<Rightarrow> string list" where
  "pending cur b = (case cur of None \<Rightarrow> [] | Some c \<Rightarrow> if b then [header c] else [])"

text \<open>A float that is a finite number between two bounds.\<close>

definition fl_between :: "real \<Rightarrow> real \<Rightarrow> fl \<Rightarrow> bool" where
  "fl_between lo hi x \<longleftrightarrow> (case x of Fin r \<Rightarrow> lo \<le> r \<and> r \<le> hi | _ \<Rightarrow> False)"

text \<open>
  The states of one run of the traversal loop at the head of the loop: the initial state, and
  the state after the loop body whenever the loop condition held.
\<close>

inductive run_state :: "doc list \<Rightarrow> int \<Rightarrow> int \<Rightarrow> string list \<Rightarrow> tstate \<Rightarrow> bool"
  for all_docs :: "doc list" and max_nodes :: int and max_depth :: int and seeds :: "string list"
where
  start: "run_state all_docs max_nodes max_depth seeds (initial_state seeds)"
| iterate:
    "run_state all_docs max_nodes max_depth seeds st \<Longrightarrow>
     nodes_to_explore st \<noteq> [] \<Longrightarrow> int (length (visited st)) < max_nodes \<Longrightarrow>
     run_state all_docs max_nodes max_depth seeds (loop_body all_docs max_depth st)"

section \<open>Properties\<close>

subsection \<open>Rounding to doubles\<close>

lemma round_even_close: "\<bar>of_int (round_even y) - y\<bar> \<le> 1 / 2"
  unfolding round_even_def Let_def by (auto; linarith)

lemma round_even_eval: "\<bar>y - of_int n\<bar> < 1 / 2 \<Longrightarrow> round_even y = n"
proof -
  assume a: "\<bar>y - of_int n\<bar> < 1 / 2"
  show ?thesis
  proof (cases "of_int n \<le> y")
    case True
    then have "\<lfloor>y\<rfloor> = n" using a by (intro floor_unique) auto
    then show ?thesis using a True by (simp add: round_even_def)
  next
    case False
    then have "\<lfloor>y\<rfloor> = n - 1" using a by (intro floor_unique) auto
    then show ?thesis using a False by (auto simp add: round_even_def)
  qed
qed

lemma round_even_int: "round_even (of_int n) = n"
  by (rule round_even_eval) simp

lemma round_even_mono: "y \<le> z \<Longrightarrow> round_even y \<le> round_even z"
proof (rule ccontr)
  assume yz: "y \<le> z" and "\<not> round_even y \<le> round_even z"
  then have gt: "round_even z + 1 \<le> round_even y" by simp
  then have g: "real_of_int (round_even z) + 1 \<le> real_of_int (round_even y)"
    by (metis of_int_1 of_int_add of_int_le_iff)
  have 1: "of_int (round_even y) \<le> y + 1 / 2" using round_even_close [of y] by linarith
  have 2: "z - 1 / 2 \<le> of_int (round_even z)" using round_even_close [of z] by linarith
  from g 1 2 yz have "y = z" by linarith
  then show False using gt by simp
qed

lemma round_even_neg: "round_even (- y) = - round_even y"
proof (cases "y = of_int \<lfloor>y\<rfloor>")
  case True
  then obtain n where "y = of_int n" by blast
  then have "- y = of_int (- n)" by simp
  then show ?thesis using \<open>y = of_int n\<close> round_even_int by metis
next
  case False
  let ?f = "\<lfloor>y\<rfloor>"
  have lt: "of_int ?f < y" using False by (metis of_int_floor_le order_less_le)
  have "\<lfloor>- y\<rfloor> = - ?f - 1"
    using lt by (intro floor_unique) (auto; linarith)+
  then show ?thesis
    using lt by (auto simp add: round_even_def Let_def; linarith?)
qed

lemma powr_powi: "(2::real) powr of_int k = 2 powi k"
  by (rule powr_real_of_int') simp_all

lemma powr_powi_succ: "(2::real) powr (of_int k + 1) = 2 powi (k + 1)"
  using powr_powi [of "k + 1"] by simp

lemma binade:
  assumes "x \<noteq> 0"
  shows "2 powi \<lfloor>log 2 \<bar>x\<bar>\<rfloor> \<le> \<bar>x\<bar> \<and> \<bar>x\<bar> < 2 powi (\<lfloor>log 2 \<bar>x\<bar>\<rfloor> + 1)"
proof -
  have "0 < \<bar>x\<bar>" using assms by simp
  then have "2 powr of_int \<lfloor>log 2 \<bar>x\<bar>\<rfloor> \<le> \<bar>x\<bar> \<and> \<bar>x\<bar> < 2 powr (of_int \<lfloor>log 2 \<bar>x\<bar>\<rfloor> + 1)"
    using floor_log_eq_powr_iff [of "\<bar>x\<bar>" 2 "\<lfloor>log 2 \<bar>x\<bar>\<rfloor>"] by simp
  then show ?thesis by (simp only: powr_powi powr_powi_succ)
qed

lemma binade_unique:
  assumes "2 powi k \<le> \<bar>x\<bar>" "\<bar>x\<bar> < 2 powi (k + 1)"
  shows "\<lfloor>log 2 \<bar>x\<bar>\<rfloor> = k"
proof -
  have "0 < (2::real) powi k" by simp
  then have pos: "0 < \<bar>x\<bar>" using assms(1) by linarith
  have "2 powr of_int k \<le> \<bar>x\<bar> \<and> \<bar>x\<bar> < 2 powr (of_int k + 1)"
    using assms by (simp only: powr_powi powr_powi_succ)
  then show ?thesis
    using floor_log_eq_powr_iff [OF pos, of 2 k] by simp
qed

lemma powi_multiple:
  assumes "j \<le> k"
  shows "(2::real) powi k = of_int (2 ^ nat (k - j)) * 2 powi j"
proof -
  have "(2::real) powi k = 2 powi ((k - j) + j)" by simp
  also have "\<dots> = 2 powi (k - j) * 2 powi j" by (rule power_int_add) simp
  also have "2 powi (k - j) = (2::real) ^ nat (k - j)"
    using assms by (simp add: power_int_nonneg_exp)
  finally show ?thesis by simp
qed

lemma ulp_exponent_neg: "ulp_exponent (- x) = ulp_exponent x"
  by (simp add: ulp_exponent_def)

lemma round_real_neg: "round_real (- x) = - round_real x"
  by (simp add: round_real_def ulp_exponent_neg round_even_neg)

lemma round_real_above_multiple:
  assumes "x \<noteq> 0" "of_int m * 2 powi ulp_exponent x \<le> x"
  shows "of_int m * 2 powi ulp_exponent x \<le> round_real x"
proof -
  let ?u = "(2::real) powi ulp_exponent x"
  have u: "0 < ?u" by simp
  have "of_int m \<le> x / ?u" using assms(2) u by (simp add: pos_le_divide_eq)
  then have "round_even (of_int m) \<le> round_even (x / ?u)" by (rule round_even_mono)
  then have "m \<le> round_even (x / ?u)" by (simp add: round_even_int)
  then have "real_of_int m \<le> of_int (round_even (x / ?u))" by simp
  then have "of_int m * ?u \<le> of_int (round_even (x / ?u)) * ?u"
    using u by (simp only: mult_le_cancel_right_pos)
  then show ?thesis using assms(1) by (simp add: round_real_def)
qed

lemma round_real_below_multiple:
  assumes "x \<noteq> 0" "x \<le> of_int m * 2 powi ulp_exponent x"
  shows "round_real x \<le> of_int m * 2 powi ulp_exponent x"
proof -
  let ?u = "(2::real) powi ulp_exponent x"
  have u: "0 < ?u" by simp
  have "x / ?u \<le> of_int m" using assms(2) u by (simp add: pos_divide_le_eq)
  then have "round_even (x / ?u) \<le> round_even (of_int m)" by (rule round_even_mono)
  then have "round_even (x / ?u) \<le> m" by (simp add: round_even_int)
  then have "real_of_int (round_even (x / ?u)) \<le> of_int m" by simp
  then have "of_int (round_even (x / ?u)) * ?u \<le> of_int m * ?u"
    using u by (simp only: mult_le_cancel_right_pos)
  then show ?thesis using assms(1) by (simp add: round_real_def)
qed

lemma round_real_nonneg: "0 \<le> x \<Longrightarrow> 0 \<le> round_real x"
proof (cases "x = 0")
  case True
  then show ?thesis by (simp add: round_real_def)
next
  case False
  assume "0 \<le> x"
  then have "of_int 0 * 2 powi ulp_exponent x \<le> x" by simp
  from round_real_above_multiple [OF False this] show ?thesis by simp
qed

lemma round_real_mono_pos:
  assumes "0 < x" "x \<le> y"
  shows "round_real x \<le> round_real y"
proof -
  let ?kx = "\<lfloor>log 2 \<bar>x\<bar>\<rfloor>" and ?ky = "\<lfloor>log 2 \<bar>y\<bar>\<rfloor>"
  have x0: "x \<noteq> 0" and y0: "y \<noteq> 0" and ypos: "0 < y" using assms by auto
  have kxy: "?kx \<le> ?ky"
    using assms by (intro floor_mono) (simp add: log_le_cancel_iff)
  then have jxy: "ulp_exponent x \<le> ulp_exponent y" by (simp add: ulp_exponent_def)
  show ?thesis
  proof (cases "ulp_exponent x = ulp_exponent y")
    case True
    let ?u = "(2::real) powi ulp_exponent y"
    have "x / ?u \<le> y / ?u" using assms(2) by (simp add: divide_right_mono)
    then have "round_even (x / ?u) \<le> round_even (y / ?u)" by (rule round_even_mono)
    then have "real_of_int (round_even (x / ?u)) \<le> of_int (round_even (y / ?u))" by simp
    then have "of_int (round_even (x / ?u)) * ?u \<le> of_int (round_even (y / ?u)) * ?u"
      by (simp only: mult_le_cancel_right_pos zero_less_power_int zero_less_numeral)
    then show ?thesis using x0 y0 True by (simp add: round_real_def)
  next
    case False
    then have lt: "ulp_exponent x < ulp_exponent y" using jxy by simp
    then have jy: "ulp_exponent y = ?ky - 52" and kk: "?kx < ?ky"
      by (auto simp add: ulp_exponent_def max_def split: if_splits)
    have jx1: "ulp_exponent x \<le> ?ky" using lt jy by simp
    have jy1: "ulp_exponent y \<le> ?ky" using jy by simp
    let ?P = "(2::real) powi ?ky"
    have xP: "x \<le> ?P"
    proof -
      have "\<bar>x\<bar> < 2 powi (?kx + 1)" using binade [OF x0] by simp
      also have "(2::real) powi (?kx + 1) \<le> 2 powi ?ky"
        using kk by (intro power_int_increasing) auto
      finally show ?thesis using assms(1) by simp
    qed
    have Py: "?P \<le> y" using binade [OF y0] ypos by simp
    have "round_real x \<le> ?P"
      using round_real_below_multiple [OF x0, of "2 ^ nat (?ky - ulp_exponent x)"]
        xP powi_multiple [OF jx1] by simp
    moreover have "?P \<le> round_real y"
      using round_real_above_multiple [OF y0, of "2 ^ nat (?ky - ulp_exponent y)"]
        Py powi_multiple [OF jy1] by simp
    ultimately show ?thesis by linarith
  qed
qed

lemma round_real_mono: "x \<le> y \<Longrightarrow> round_real x \<le> round_real y"
proof -
  assume xy: "x \<le> y"
  consider "0 < x" | "x \<le> 0" "0 \<le> y" | "y < 0" by linarith
  then show ?thesis
  proof cases
    case 1
    then show ?thesis using xy by (rule round_real_mono_pos)
  next
    case 2
    have "round_real x \<le> 0" using round_real_nonneg [of "- x"] 2(1) by (simp add: round_real_neg)
    moreover have "0 \<le> round_real y" using 2(2) by (rule round_real_nonneg)
    ultimately show ?thesis by linarith
  next
    case 3
    then have "0 < - y" "- y \<le> - x" using xy by auto
    from round_real_mono_pos [OF this] show ?thesis by (simp add: round_real_neg)
  qed
qed

lemma round_real_eval:
  assumes "2 powi k \<le> \<bar>x\<bar>" "\<bar>x\<bar> < 2 powi (k + 1)" "max (k - 52) (- 1074) = j"
    and "\<bar>x / 2 powi j - of_int n\<bar> < 1 / 2"
  shows "round_real x = of_int n * 2 powi j"
proof -
  have p: "0 < (2::real) powi k" by simp
  have "0 < \<bar>x\<bar>" using p assms(1) by (rule less_le_trans)
  then have x0: "x \<noteq> 0" by auto
  have "\<lfloor>log 2 \<bar>x\<bar>\<rfloor> = k" using assms(1,2) by (rule binade_unique)
  then have j: "ulp_exponent x = j" using assms(3) by (simp add: ulp_exponent_def)
  have "round_even (x / 2 powi j) = n" using assms(4) by (rule round_even_eval)
  then show ?thesis using x0 j by (simp add: round_real_def)
qed

lemma round_real_repr:
  assumes "\<bar>n\<bar> < 2 ^ 53" "- 1074 \<le> e"
  shows "round_real (of_int n * 2 powi e) = of_int n * 2 powi e"
proof (cases "n = 0")
  case True
  then show ?thesis by (simp add: round_real_def)
next
  case False
  let ?x = "real_of_int n * 2 powi e"
  let ?k = "\<lfloor>log 2 \<bar>?x\<bar>\<rfloor>"
  let ?j = "ulp_exponent ?x"
  have x0: "?x \<noteq> 0" using False by simp
  have "\<bar>real_of_int n\<bar> < 2 ^ 53" using assms(1) by (metis of_int_abs of_int_less_numeral_power_cancel_iff)
  then have "\<bar>?x\<bar> < 2 ^ 53 * 2 powi e" by (simp add: abs_mult)
  also have "\<dots> = 2 powi (e + 53)" by (simp add: power_int_add)
  finally have lt: "2 powi ?k < (2::real) powi (e + 53)" using binade [OF x0] by linarith
  have "?k < e + 53"
  proof (rule ccontr)
    assume "\<not> ?k < e + 53"
    then have "e + 53 \<le> ?k" by simp
    then have "(2::real) powi (e + 53) \<le> 2 powi ?k" by (intro power_int_increasing) auto
    with lt show False by linarith
  qed
  then have je: "?j \<le> e" using assms(2) by (simp add: ulp_exponent_def)
  define u :: real where "u = 2 powi ?j"
  define m :: int where "m = 2 ^ nat (e - ?j)"
  have u: "0 < u" by (simp add: u_def)
  have pe: "2 powi e = of_int m * u"
    using powi_multiple [OF je] by (simp add: u_def m_def)
  have "?x / u = of_int (n * m)"
    using u by (simp add: pe)
  then have "round_even (?x / u) = n * m"
    by (simp only: round_even_int)
  then have "round_real ?x = of_int (n * m) * u"
    using x0 by (simp add: round_real_def u_def)
  then show ?thesis by (simp add: pe)
qed

lemma round_fl_eval:
  assumes "2 powi k \<le> \<bar>x\<bar>" "\<bar>x\<bar> < 2 powi (k + 1)" "max (k - 52) (- 1074) = j"
    and "\<bar>x / 2 powi j - of_int n\<bar> < 1 / 2"
    and "\<bar>of_int n * 2 powi j\<bar> < (2::real) ^ 1024"
  shows "round_fl x = Fin (of_int n * 2 powi j)"
  using assms(5) round_real_eval [OF assms(1-4)]
  by (simp add: round_fl_def Let_def abs_less_iff not_le)

lemma round_fl_int: "\<bar>n\<bar> < 2 ^ 53 \<Longrightarrow> round_fl (of_int n) = Fin (of_int n)"
proof -
  assume a: "\<bar>n\<bar> < 2 ^ 53"
  then have r: "round_real (of_int n) = of_int n" using round_real_repr [of n 0] by simp
  have "\<bar>real_of_int n\<bar> < 2 ^ 53" using a by (metis of_int_abs of_int_less_numeral_power_cancel_iff)
  also have "(2::real) ^ 53 < 2 ^ 1024" by simp
  finally show ?thesis by (simp add: round_fl_def Let_def r abs_less_iff not_le)
qed

lemma round_fl_0 [simp]: "round_fl 0 = Fin 0"
  using round_fl_int [of 0] by simp

lemma round_fl_1 [simp]: "round_fl 1 = Fin 1"
  using round_fl_int [of 1] by simp

lemma round_fl_2 [simp]: "round_fl 2 = Fin 2"
  using round_fl_int [of 2] by simp


lemma round_fl_between:
  assumes "2 powi k \<le> \<bar>x\<bar>" "\<bar>x\<bar> < 2 powi (k + 1)" "max (k - 52) (- 1074) = j"
    and "of_int n - 1 / 2 < x * 2 powi (- j)" "x * 2 powi (- j) < of_int n + 1 / 2"
    and "\<bar>n\<bar> \<le> 2 ^ 53" "j \<le> 970"
  shows "round_fl x = Fin (of_int n * 2 powi j)"
proof (rule round_fl_eval [OF assms(1-3)])
  have "x / 2 powi j = x * 2 powi (- j)" by (simp add: power_int_minus field_simps)
  then show "\<bar>x / 2 powi j - of_int n\<bar> < 1 / 2" using assms(4,5) by linarith
  have "\<bar>real_of_int n\<bar> \<le> 2 ^ 53" using assms(6) by (metis of_int_abs of_int_le_numeral_power_cancel_iff)
  then have "\<bar>real_of_int n * 2 powi j\<bar> \<le> 2 ^ 53 * 2 powi j"
    by (simp add: abs_mult mult_right_mono)
  also have "\<dots> = (2::real) powi (53 + j)" by (simp add: power_int_add)
  also have "\<dots> \<le> 2 powi 1023" using assms(7) by (intro power_int_increasing) auto
  also have "\<dots> < (2::real) ^ 1024" by simp
  finally show "\<bar>real_of_int n * 2 powi j\<bar> < (2::real) ^ 1024" .
qed

lemma round_fl_not_NaN: "round_fl x \<noteq> NaN"
  by (simp add: round_fl_def Let_def)

lemma fl_le_refl: "x \<noteq> NaN \<Longrightarrow> fl_le x x"
  by (simp add: fl_le_def)

lemma fl_lt_imp_le: "fl_lt x y \<Longrightarrow> fl_le x y"
  by (simp add: fl_le_def)

lemma fl_le_Fin [simp]: "fl_le (Fin a) (Fin b) \<longleftrightarrow> a \<le> b"
  by (auto simp add: fl_le_def)

lemma round_fl_mono: "x \<le> y \<Longrightarrow> fl_le (round_fl x) (round_fl y)"
  using round_real_mono [of x y] by (auto simp add: round_fl_def Let_def fl_le_def)

lemma fl_le_PInf: "x \<noteq> NaN \<Longrightarrow> fl_le x PInf"
  by (cases x) (simp_all add: fl_le_def)

lemma fl_le_NInf: "x \<noteq> NaN \<Longrightarrow> fl_le NInf x"
  by (cases x) (simp_all add: fl_le_def)

lemma fl_mul_mono:
  assumes "fl_le x y" "0 < r"
  shows "fl_le (fl_mul x (Fin r)) (fl_mul y (Fin r))"
proof (cases x)
  case (Fin a)
  show ?thesis
  proof (cases y)
    case (Fin b)
    then have "a * r \<le> b * r" using assms \<open>x = Fin a\<close> by simp
    then show ?thesis using \<open>x = Fin a\<close> Fin by (simp add: round_fl_mono)
  next
    case PInf
    then show ?thesis using \<open>x = Fin a\<close> assms(2) by (simp add: fl_le_PInf round_fl_not_NaN)
  next
    case NInf
    then show ?thesis using \<open>x = Fin a\<close> assms(1) by (simp add: fl_le_def)
  next
    case NaN
    then show ?thesis using \<open>x = Fin a\<close> assms(1) by (simp add: fl_le_def)
  qed
next
  case PInf
  then have "y = PInf" using assms(1) by (cases y) (simp_all add: fl_le_def)
  then show ?thesis using PInf assms(2) by (simp add: fl_le_def)
next
  case NInf
  have "fl_mul y (Fin r) \<noteq> NaN"
    using assms NInf by (cases y) (simp_all add: round_fl_not_NaN fl_le_def)
  then show ?thesis using NInf assms(2) by (simp add: fl_le_NInf)
next
  case NaN
  then show ?thesis using assms(1) by (simp add: fl_le_def)
qed

lemma round_real_powi: "- 1074 \<le> e \<Longrightarrow> round_real (2 powi e) = 2 powi e"
  using round_real_repr [of 1 e] by simp

lemma round_fl_range:
  assumes "2 powi a \<le> x" "x \<le> 2 powi b" "- 1074 \<le> a" "a \<le> b" "b \<le> 1023"
  shows "fl_between (2 powi a) (2 powi b) (round_fl x)"
proof -
  have lo: "2 powi a \<le> round_real x"
    using round_real_mono [OF assms(1)] assms(3) by (simp add: round_real_powi)
  have hi: "round_real x \<le> 2 powi b"
    using round_real_mono [OF assms(2)] assms(3,4) by (simp add: round_real_powi)
  have "(2::real) powi b \<le> 2 powi 1023" using assms(5) by (intro power_int_increasing) auto
  also have "\<dots> < (2::real) ^ 1024" by simp
  finally have b: "round_real x < 2 ^ 1024" using hi by linarith
  have "0 < (2::real) powi a" by simp
  moreover have "- (2 ^ 1024) < (0::real)" by simp
  ultimately have a: "- (2 ^ 1024) < round_real x" using lo by linarith
  show ?thesis using a b lo hi by (simp add: round_fl_def Let_def fl_between_def not_le)
qed

lemma fl_betweenE:
  assumes "fl_between lo hi x"
  obtains r where "x = Fin r" "lo \<le> r" "r \<le> hi"
  using assms by (cases x) (simp_all add: fl_between_def)

lemma fl_between_mul:
  assumes "fl_between 1 (2 powi m) x" "fl_between 1 (2 powi n) y" "0 \<le> m" "0 \<le> n" "m + n \<le> 1023"
  shows "fl_between 1 (2 powi (m + n)) (fl_mul x y)"
proof -
  from assms(1) obtain r where x: "x = Fin r" and r: "1 \<le> r" "r \<le> 2 powi m" by (rule fl_betweenE)
  from assms(2) obtain s where y: "y = Fin s" and s: "1 \<le> s" "s \<le> 2 powi n" by (rule fl_betweenE)
  have lo: "2 powi 0 \<le> r * s" using r(1) s(1) mult_mono [of 1 r 1 s] by simp
  have "r * s \<le> 2 powi m * 2 powi n" using r s by (intro mult_mono) auto
  also have "\<dots> = (2::real) powi (m + n)" by (simp add: power_int_add)
  finally have hi: "r * s \<le> 2 powi (m + n)" .
  have "fl_between (2 powi 0) (2 powi (m + n)) (round_fl (r * s))"
    using lo hi assms(3-5) by (intro round_fl_range) auto
  then show ?thesis by (simp add: x y)
qed

lemma fl_between_weaken:
  "fl_between lo hi x \<Longrightarrow> lo' \<le> lo \<Longrightarrow> hi \<le> hi' \<Longrightarrow> fl_between lo' hi' x"
  by (cases x) (auto simp add: fl_between_def)



lemma round_fl_repr:
  assumes "\<bar>n\<bar> < 2 ^ 53" "- 1074 \<le> e" "e \<le> 970"
  shows "round_fl (of_int n * 2 powi e) = Fin (of_int n * 2 powi e)"
proof -
  have r: "round_real (of_int n * 2 powi e) = of_int n * 2 powi e"
    using assms(1,2) by (rule round_real_repr)
  have "\<bar>real_of_int n\<bar> \<le> 2 ^ 53" using assms(1) by (metis of_int_abs of_int_le_numeral_power_cancel_iff less_imp_le)
  then have "\<bar>real_of_int n * 2 powi e\<bar> \<le> 2 ^ 53 * 2 powi e"
    by (simp add: abs_mult mult_right_mono)
  also have "\<dots> = (2::real) powi (53 + e)" by (simp add: power_int_add)
  also have "\<dots> \<le> 2 powi 1023" using assms(3) by (intro power_int_increasing) auto
  also have "\<dots> < (2::real) ^ 1024" by simp
  finally have "\<bar>real_of_int n * 2 powi e\<bar> < (2::real) ^ 1024" .
  then show ?thesis by (simp add: round_fl_def Let_def r abs_less_iff not_le)
qed

lemma float_lit_1_3: "float_lit 1.3 = Fin (5854679515581645 / 2 ^ 52)"
proof -
  have "round_fl 1.3 = Fin (of_int 5854679515581645 * 2 powi (- 52))"
    by (rule round_fl_between [where k = 0]) (simp_all add: power_int_minus)
  then show ?thesis by (simp add: float_lit_def power_int_minus)
qed

lemma float_lit_1_2: "float_lit 1.2 = Fin (5404319552844595 / 2 ^ 52)"
proof -
  have "round_fl 1.2 = Fin (of_int 5404319552844595 * 2 powi (- 52))"
    by (rule round_fl_between [where k = 0]) (simp_all add: power_int_minus)
  then show ?thesis by (simp add: float_lit_def power_int_minus)
qed

subsection \<open>Cosine similarity\<close>





lemma cos_q1:
  "cosine_similarity [Fin (8056283928194527 / 2 ^ 53), Fin (8056283928194498 / 2 ^ 54)] [Fin 1, Fin 0]
     = Fin (8056283928194527 / 2 ^ 53)"
proof -
  define x :: real where "x = 8056283928194527 / 2 ^ 53"
  define y :: real where "y = 8056283928194498 / 2 ^ 54"
  define a :: real where "a = 7205759403792804 / 2 ^ 53"
  define b :: real where "b = 7205759403792752 / 2 ^ 55"
  have "round_fl (of_int 8056283928194527 * 2 powi (- 53)) = Fin (of_int 8056283928194527 * 2 powi (- 53))"
    by (rule round_fl_repr) simp_all
  then have rx: "round_fl x = Fin x" by (simp add: x_def power_int_minus)
  have "round_fl (x * x) = Fin (of_int 7205759403792804 * 2 powi (- 53))"
    by (rule round_fl_between [where k = "- 1"]) (simp_all add: x_def power_int_minus)
  then have xx: "round_fl (x * x) = Fin a" by (simp add: a_def power_int_minus)
  have "round_fl (of_int 7205759403792804 * 2 powi (- 53)) = Fin (of_int 7205759403792804 * 2 powi (- 53))"
    by (rule round_fl_repr) simp_all
  then have ra: "round_fl a = Fin a" by (simp add: a_def power_int_minus)
  have "round_fl (y * y) = Fin (of_int 7205759403792752 * 2 powi (- 55))"
    by (rule round_fl_between [where k = "- 3"]) (simp_all add: y_def power_int_minus)
  then have yy: "round_fl (y * y) = Fin b" by (simp add: b_def power_int_minus)
  have "a + b = 1" by (simp add: a_def b_def)
  then have ab: "round_fl (a + b) = Fin 1" by simp
  have "cosine_similarity [Fin x, Fin y] [Fin 1, Fin 0] = Fin x"
    by (simp add: cosine_similarity_def fl_sum_def Let_def rx xx ra yy ab)
  then show ?thesis by (simp only: x_def y_def)
qed

lemma cos_q2:
  "cosine_similarity [Fin (8056283928194528 / 2 ^ 53), Fin (8056283928194494 / 2 ^ 54)] [Fin 1, Fin 0]
     = Fin (8056283928194528 / 2 ^ 53)"
proof -
  define x :: real where "x = 8056283928194528 / 2 ^ 53"
  define y :: real where "y = 8056283928194494 / 2 ^ 54"
  define a :: real where "a = 7205759403792806 / 2 ^ 53"
  define b :: real where "b = 7205759403792745 / 2 ^ 55"
  have "round_fl (of_int 8056283928194528 * 2 powi (- 53)) = Fin (of_int 8056283928194528 * 2 powi (- 53))"
    by (rule round_fl_repr) simp_all
  then have rx: "round_fl x = Fin x" by (simp add: x_def power_int_minus)
  have "round_fl (x * x) = Fin (of_int 7205759403792806 * 2 powi (- 53))"
    by (rule round_fl_between [where k = "- 1"]) (simp_all add: x_def power_int_minus)
  then have xx: "round_fl (x * x) = Fin a" by (simp add: a_def power_int_minus)
  have "round_fl (of_int 7205759403792806 * 2 powi (- 53)) = Fin (of_int 7205759403792806 * 2 powi (- 53))"
    by (rule round_fl_repr) simp_all
  then have ra: "round_fl a = Fin a" by (simp add: a_def power_int_minus)
  have "round_fl (y * y) = Fin (of_int 7205759403792745 * 2 powi (- 55))"
    by (rule round_fl_between [where k = "- 3"]) (simp_all add: y_def power_int_minus)
  then have yy: "round_fl (y * y) = Fin b" by (simp add: b_def power_int_minus)
  have "round_fl (a + b) = Fin (of_int 4503599627370496 * 2 powi (- 52))"
    by (rule round_fl_between [where k = 0]) (simp_all add: a_def b_def power_int_minus)
  then have ab: "round_fl (a + b) = Fin 1" by (simp add: power_int_minus)
  have "cosine_similarity [Fin x, Fin y] [Fin 1, Fin 0] = Fin x"
    by (simp add: cosine_similarity_def fl_sum_def Let_def rx xx ra yy ab)
  then show ?thesis by (simp only: x_def y_def)
qed

lemma mul_q1: "fl_mul (Fin (8056283928194527 / 2 ^ 53)) (float_lit 1.3) = Fin (5236584553326443 / 2 ^ 52)"
proof -
  define x :: real where "x = 8056283928194527 / 2 ^ 53"
  define c :: real where "c = 5854679515581645 / 2 ^ 52"
  have "round_fl (x * c) = Fin (of_int 5236584553326443 * 2 powi (- 52))"
    by (rule round_fl_between [where k = 0]) (simp_all add: x_def c_def power_int_minus)
  then have "fl_mul (Fin x) (Fin c) = Fin (5236584553326443 / 2 ^ 52)"
    by (simp add: power_int_minus)
  then show ?thesis by (simp only: x_def c_def float_lit_1_3)
qed

lemma mul_q2: "fl_mul (Fin (8056283928194528 / 2 ^ 53)) (float_lit 1.3) = Fin (5236584553326443 / 2 ^ 52)"
proof -
  define x :: real where "x = 8056283928194528 / 2 ^ 53"
  define c :: real where "c = 5854679515581645 / 2 ^ 52"
  have "round_fl (x * c) = Fin (of_int 5236584553326443 * 2 powi (- 52))"
    by (rule round_fl_between [where k = 0]) (simp_all add: x_def c_def power_int_minus)
  then have "fl_mul (Fin x) (Fin c) = Fin (5236584553326443 / 2 ^ 52)"
    by (simp add: power_int_minus)
  then show ?thesis by (simp only: x_def c_def float_lit_1_3)
qed

lemma mul_one_repr:
  "fl_mul (Fin (5236584553326443 / 2 ^ 52)) (Fin 1) = Fin (5236584553326443 / 2 ^ 52)"
proof -
  have "round_fl (of_int 5236584553326443 * 2 powi (- 52)) = Fin (of_int 5236584553326443 * 2 powi (- 52))"
    by (rule round_fl_repr) simp_all
  then show ?thesis by (simp add: power_int_minus)
qed

subsection \<open>The relevance score\<close>

lemma float_lit_range: "1 \<le> q \<Longrightarrow> q \<le> 2 \<Longrightarrow> fl_between 1 (2 powi 1) (float_lit q)"
  using round_fl_range [of 0 q 1] by (simp add: float_lit_def)

lemma float_lit_range2: "1 \<le> q \<Longrightarrow> q \<le> 2 \<Longrightarrow> fl_between 1 2 (float_lit q)"
  using float_lit_range [of q] by simp

lemma boost_step:
  assumes "fl_between 1 (2 powi m) b" "0 \<le> m" "m \<le> 1000" "1 \<le> q" "q \<le> 2"
  shows "fl_between 1 (2 powi (m + 1)) (if c then fl_mul b (float_lit q) else b)"
proof (cases c)
  case True
  have "fl_between 1 (2 powi (m + 1)) (fl_mul b (float_lit q))"
    using assms by (intro fl_between_mul float_lit_range) auto
  then show ?thesis using True by simp
next
  case False
  have "(2::real) powi m \<le> 2 powi (m + 1)" by (intro power_int_increasing) auto
  then have "fl_between 1 (2 powi (m + 1)) b"
    using assms(1) by (intro fl_between_weaken [OF assms(1)]) auto
  then show ?thesis using False by simp
qed

lemma path_boost_range: "fl_between 1 (2 powi 3) (path_boost_of path)"
proof (cases "path = None \<or> path = Some []")
  case True
  then show ?thesis by (auto simp add: path_boost_of_def fl_between_def)
next
  case False
  then obtain p where p: "path = Some p" "p \<noteq> []" by (cases path) auto
  define b0 where "b0 = (if length p = 1 then float_lit 1.3
                         else if length p = 2 then float_lit 1.15 else float_lit 1.05)"
  define b1 where "b1 = (if ''parent'' \<in> set p then fl_mul b0 (float_lit 1.2) else b0)"
  define b2 where "b2 = (if ''child'' \<in> set p then fl_mul b1 (float_lit 1.3) else b1)"
  have "fl_between 1 2 b0" by (simp add: b0_def float_lit_range2)
  then have 0: "fl_between 1 (2 powi 1) b0" by simp
  have "fl_between 1 (2 powi (1 + 1)) b1" unfolding b1_def using 0 by (rule boost_step) simp_all
  then have 1: "fl_between 1 (2 powi 2) b1" by simp
  have "fl_between 1 (2 powi (2 + 1)) b2" unfolding b2_def using 1 by (rule boost_step) simp_all
  then have 2: "fl_between 1 (2 powi 3) b2" by simp
  have "path_boost_of path = b2"
    using p by (simp add: path_boost_of_def Let_def b0_def b1_def b2_def)
  then show ?thesis using 2 by simp
qed

lemma level_boost_range: "fl_between 1 (2 powi 1) (level_boost_of d)"
  by (simp add: level_boost_of_def Let_def float_lit_range2) (simp add: fl_between_def)

lemma topic_term_range:
  assumes "0 < n" "n < 2 ^ 53"
  shows "fl_between 1 (2 powi 51) (fl_add (Fin 1) (fl_mul (fl_of_nat n) (float_lit 0.1)))"
proof -
  have "\<bar>int n\<bar> < 2 ^ 53" using assms(2) by (simp add: of_nat_less_numeral_power_cancel_iff)
  from round_fl_int [OF this] have n: "fl_of_nat n = Fin (real n)" by (simp add: fl_of_nat_def)
  have "fl_between (2 powi (- 4)) (2 powi (- 3)) (round_fl 0.1)"
    by (rule round_fl_range) (simp_all add: power_int_minus)
  then obtain c where c: "float_lit 0.1 = Fin c" "2 powi (- 4) \<le> c" "c \<le> 2 powi (- 3)"
    unfolding float_lit_def by (rule fl_betweenE)
  have n1: "1 \<le> real n" using assms(1) by simp
  have n2: "real n \<le> 2 ^ 53" using assms(2) by (simp add: of_nat_less_numeral_power_cancel_iff less_imp_le)
  have cpos: "0 \<le> c" using c(2) by (simp add: power_int_minus)
  have lo: "2 powi (- 4) \<le> real n * c"
    using n1 c(2) cpos mult_mono [of 1 "real n" "2 powi (- 4)" c] by simp
  have "real n * c \<le> 2 ^ 53 * 2 powi (- 3)"
    using n2 c(3) cpos by (intro mult_mono) auto
  also have "\<dots> = (2::real) powi 50" by (simp add: power_int_minus)
  finally have hi: "real n * c \<le> 2 powi 50" .
  have "fl_between (2 powi (- 4)) (2 powi 50) (round_fl (real n * c))"
    using lo hi by (rule round_fl_range) simp_all
  then obtain t where t: "round_fl (real n * c) = Fin t" "2 powi (- 4) \<le> t" "t \<le> 2 powi 50"
    by (rule fl_betweenE)
  have tpos: "0 \<le> t" using t(2) by (simp add: power_int_minus)
  have "fl_between (2 powi 0) (2 powi 51) (round_fl (1 + t))"
  proof (rule round_fl_range)
    show "2 powi 0 \<le> 1 + t" using tpos by simp
    have "1 + t \<le> 2 powi 50 + 2 powi 50" using t(3) by simp
    then show "1 + t \<le> 2 powi 51" by simp
  qed simp_all
  then show ?thesis by (simp add: n c(1) t(1))
qed

lemma topic_boost_range:
  assumes "length topics < 2 ^ 53"
  shows "fl_between 1 (2 powi 51) (topic_boost_of d topics)"
proof -
  define content where "content = (if truthy (d_full_context d) then get_or (d_full_context d) []
                                    else get_or (d_content d) [])"
  define n where "n = length (filter (\<lambda>topic. is_substring (lower topic)
                         (lower (get_or (d_header d) [] @ '' '' @ content))) topics)"
  have "n \<le> length topics" by (simp add: n_def)
  then have n: "n < 2 ^ 53" using assms by simp
  have eq: "topic_boost_of d topics =
      (if n > 0 then fl_add (Fin 1) (fl_mul (fl_of_nat n) (float_lit 0.1)) else Fin 1)"
    by (simp add: topic_boost_of_def Let_def n_def content_def)
  show ?thesis
  proof (cases "n > 0")
    case True
    then show ?thesis using eq topic_term_range [OF True n] by simp
  next
    case False
    then show ?thesis using eq by (simp add: fl_between_def)
  qed
qed

text \<open>
  C9. The claim is that, for a fixed node, fixed topics and a fixed discovery path, the score is
  strictly increasing in the base similarity. It fails on doubles, where the product with the
  factors is rounded. The node has the embedding \<open>[1.0, 0.0]\<close> and the level 3, there are no
  topics and the path is \<open>[''seed'']\<close>, so the score is the similarity times \<open>1.3\<close>. The two query embeddings
  have the similarities \<open>0.8944271909999165\<close> and \<open>0.8944271909999166\<close> to the node, two
  adjacent doubles, and both get the score \<open>1.1627553482998916\<close>.
\<close>

theorem relevance_not_strictly_increasing_counterexample:
  "fl_lt (cosine_similarity [Fin (8056283928194527 / 2 ^ 53), Fin (8056283928194498 / 2 ^ 54)]
            [Fin 1, Fin 0])
         (cosine_similarity [Fin (8056283928194528 / 2 ^ 53), Fin (8056283928194494 / 2 ^ 54)]
            [Fin 1, Fin 0]) \<and>
   get_node_relevance_score [intro_doc] ''n1''
       [Fin (8056283928194527 / 2 ^ 53), Fin (8056283928194498 / 2 ^ 54)] [] (Some [''seed''])
     = Fin (5236584553326443 / 2 ^ 52) \<and>
   get_node_relevance_score [intro_doc] ''n1''
       [Fin (8056283928194528 / 2 ^ 53), Fin (8056283928194494 / 2 ^ 54)] [] (Some [''seed''])
     = Fin (5236584553326443 / 2 ^ 52) \<and>
   \<not> fl_lt (get_node_relevance_score [intro_doc] ''n1''
              [Fin (8056283928194527 / 2 ^ 53), Fin (8056283928194498 / 2 ^ 54)] [] (Some [''seed'']))
           (get_node_relevance_score [intro_doc] ''n1''
              [Fin (8056283928194528 / 2 ^ 53), Fin (8056283928194494 / 2 ^ 54)] [] (Some [''seed'']))"
proof -
  let ?q1 = "[Fin (8056283928194527 / 2 ^ 53), Fin (8056283928194498 / 2 ^ 54)]"
  let ?q2 = "[Fin (8056283928194528 / 2 ^ 53), Fin (8056283928194494 / 2 ^ 54)]"
  have g: "get_document_by_id [intro_doc] ''n1'' = Some intro_doc"
    by (simp add: get_document_by_id_def intro_doc_def)
  have e: "d_embedding intro_doc = Some [Fin 1, Fin 0]"
    by (simp add: intro_doc_def)
  have pb: "path_boost_of (Some [''seed'']) = float_lit 1.3"
    by (simp add: path_boost_of_def)
  have tb: "topic_boost_of intro_doc [] = Fin 1"
    by (simp add: topic_boost_of_def)
  have lb: "level_boost_of intro_doc = Fin 1"
    by (simp add: level_boost_of_def intro_doc_def get_or_def)
  have s1: "get_node_relevance_score [intro_doc] ''n1'' ?q1 [] (Some [''seed''])
              = Fin (5236584553326443 / 2 ^ 52)"
    by (simp only: get_node_relevance_score_def g e option.case pb tb lb cos_q1 mul_q1 mul_one_repr)
  have s2: "get_node_relevance_score [intro_doc] ''n1'' ?q2 [] (Some [''seed''])
              = Fin (5236584553326443 / 2 ^ 52)"
    by (simp only: get_node_relevance_score_def g e option.case pb tb lb cos_q2 mul_q2 mul_one_repr)
  have lt: "fl_lt (cosine_similarity ?q1 [Fin 1, Fin 0]) (cosine_similarity ?q2 [Fin 1, Fin 0])"
    by (simp only: cos_q1 cos_q2) simp
  show ?thesis
    using lt by (simp only: s1 s2) simp
qed

text \<open>
  C9, as the code has it. For a stored node with an embedding, a fixed discovery path and fewer
  than \<open>2 ^ 53\<close> topics, the score does not decrease when the base similarity increases: two
  query embeddings whose similarities to the node are \<open>s1 < s2\<close> give scores
  \<open>score1 \<le> score2\<close>. Each of the three factors is a finite double that is at least 1, and the
  rounded product with such a factor is monotone.
\<close>

theorem relevance_nondecreasing_in_similarity:
  assumes "get_document_by_id store node_id = Some d"
    and "d_embedding d = Some emb"
    and "fl_lt (cosine_similarity q1 emb) (cosine_similarity q2 emb)"
    and "length topics < 2 ^ 53"
  shows "fl_le (get_node_relevance_score store node_id q1 topics path)
           (get_node_relevance_score store node_id q2 topics path)"
proof -
  obtain pb where pb: "path_boost_of path = Fin pb" "1 \<le> pb"
    using path_boost_range [of path] by (rule fl_betweenE)
  obtain tb where tb: "topic_boost_of d topics = Fin tb" "1 \<le> tb"
    using topic_boost_range [OF assms(4), of d] by (rule fl_betweenE)
  obtain lb where lb: "level_boost_of d = Fin lb" "1 \<le> lb"
    using level_boost_range [of d] by (rule fl_betweenE)
  have 0: "fl_le (cosine_similarity q1 emb) (cosine_similarity q2 emb)"
    using assms(3) by (rule fl_lt_imp_le)
  have 1: "fl_le (fl_mul (cosine_similarity q1 emb) (Fin pb)) (fl_mul (cosine_similarity q2 emb) (Fin pb))"
    by (rule fl_mul_mono [OF 0]) (use pb(2) in linarith)
  have 2: "fl_le (fl_mul (fl_mul (cosine_similarity q1 emb) (Fin pb)) (Fin tb))
                 (fl_mul (fl_mul (cosine_similarity q2 emb) (Fin pb)) (Fin tb))"
    by (rule fl_mul_mono [OF 1]) (use tb(2) in linarith)
  have 3: "fl_le (fl_mul (fl_mul (fl_mul (cosine_similarity q1 emb) (Fin pb)) (Fin tb)) (Fin lb))
                 (fl_mul (fl_mul (fl_mul (cosine_similarity q2 emb) (Fin pb)) (Fin tb)) (Fin lb))"
    by (rule fl_mul_mono [OF 2]) (use lb(2) in linarith)
  show ?thesis
    using 3 by (simp add: get_node_relevance_score_def assms(1,2) pb(1) tb(1) lb(1))
qed

lemma cos_unit_vectors:
  "cosine_similarity [Fin 0, Fin 1] [Fin 1, Fin 0] = Fin 0"
  "cosine_similarity [Fin 1, Fin 0] [Fin 1, Fin 0] = Fin 1"
  by (simp_all add: cosine_similarity_def fl_sum_def Let_def)

theorem relevance_nondecreasing_in_similarity_witness:
  "get_document_by_id [intro_doc] ''n1'' = Some intro_doc \<and>
   d_embedding intro_doc = Some [Fin 1, Fin 0] \<and>
   fl_lt (cosine_similarity [Fin 0, Fin 1] [Fin 1, Fin 0])
         (cosine_similarity [Fin 1, Fin 0] [Fin 1, Fin 0]) \<and>
   length [''intro''] < 2 ^ 53 \<and>
   fl_le (get_node_relevance_score [intro_doc] ''n1'' [Fin 0, Fin 1] [''intro'']
            (Some [''seed'', ''child'']))
         (get_node_relevance_score [intro_doc] ''n1'' [Fin 1, Fin 0] [''intro'']
            (Some [''seed'', ''child'']))"
proof -
  have a: "get_document_by_id [intro_doc] ''n1'' = Some intro_doc"
    by (simp add: get_document_by_id_def intro_doc_def)
  have b: "d_embedding intro_doc = Some [Fin 1, Fin 0]"
    by (simp add: intro_doc_def)
  have c: "fl_lt (cosine_similarity [Fin 0, Fin 1] [Fin 1, Fin 0])
                 (cosine_similarity [Fin 1, Fin 0] [Fin 1, Fin 0])"
    by (simp add: cos_unit_vectors)
  have d: "length [''intro''] < 2 ^ 53" by simp
  from relevance_nondecreasing_in_similarity [OF a b c d] a b c d show ?thesis by simp
qed

text \<open>
  C2. The claim is that a node whose discovery path is exactly \<open>[''seed'']\<close> gets the path
  factor \<open>1.0\<close>. On the code the path \<open>[''seed'']\<close> is a non-empty list of length 1, so the
  factor is the double \<open>1.3\<close>: for the node \<open>intro_doc\<close>, whose similarity, topic factor and
  level factor are all \<open>1.0\<close>, the score of the seed is \<open>1.3\<close>, not \<open>1.0\<close>.
\<close>

theorem seed_path_factor_evaluated:
  "path_boost_of (Some [''seed'']) = float_lit 1.3 \<and>
   float_lit 1.3 = Fin (5854679515581645 / 2 ^ 52) \<and>
   path_boost_of (Some [''seed'']) \<noteq> Fin 1 \<and>
   fl_mul (fl_mul (cosine_similarity [Fin 1, Fin 0] [Fin 1, Fin 0]) (topic_boost_of intro_doc []))
     (level_boost_of intro_doc) = Fin 1 \<and>
   get_node_relevance_score [intro_doc] ''n1'' [Fin 1, Fin 0] [] (Some [''seed''])
     = Fin (5854679515581645 / 2 ^ 52) \<and>
   get_node_relevance_score [intro_doc] ''n1'' [Fin 1, Fin 0] [] None = Fin 1"
proof -
  define c :: real where "c = 5854679515581645 / 2 ^ 52"
  have l: "float_lit 1.3 = Fin c" by (simp only: float_lit_1_3 c_def)
  have "round_fl (of_int 5854679515581645 * 2 powi (- 52)) = Fin (of_int 5854679515581645 * 2 powi (- 52))"
    by (rule round_fl_repr) simp_all
  then have r: "round_fl c = Fin c" by (simp add: c_def power_int_minus)
  have c1: "c \<noteq> 1" by (simp add: c_def)
  have pb: "path_boost_of (Some [''seed'']) = Fin c"
    by (simp add: path_boost_of_def l)
  have pn: "path_boost_of None = Fin 1"
    by (simp add: path_boost_of_def)
  have tb: "topic_boost_of intro_doc [] = Fin 1"
    by (simp add: topic_boost_of_def)
  have lb: "level_boost_of intro_doc = Fin 1"
    by (simp add: level_boost_of_def intro_doc_def get_or_def)
  have g: "get_document_by_id [intro_doc] ''n1'' = Some intro_doc"
    by (simp add: get_document_by_id_def intro_doc_def)
  have e: "d_embedding intro_doc = Some [Fin 1, Fin 0]"
    by (simp add: intro_doc_def)
  have s: "get_node_relevance_score [intro_doc] ''n1'' [Fin 1, Fin 0] [] (Some [''seed'']) = Fin c"
    by (simp add: get_node_relevance_score_def g e pb tb lb cos_unit_vectors r)
  have n: "get_node_relevance_score [intro_doc] ''n1'' [Fin 1, Fin 0] [] None = Fin 1"
    by (simp add: get_node_relevance_score_def g e pn tb lb cos_unit_vectors)
  have m: "fl_mul (fl_mul (cosine_similarity [Fin 1, Fin 0] [Fin 1, Fin 0]) (topic_boost_of intro_doc []))
     (level_boost_of intro_doc) = Fin 1"
    by (simp add: tb lb cos_unit_vectors)
  show ?thesis
    using c1 by (simp only: pb l s n m) (simp add: c_def)
qed

subsection \<open>The traversal\<close>

lemma traverse_loop_stop:
  "nodes_to_explore st = [] \<or> max_nodes \<le> int (length (visited st)) \<Longrightarrow>
   traverse_loop all_docs max_nodes max_depth st = st"
  by (subst traverse_loop.simps) auto

lemma traverse_loop_step:
  "nodes_to_explore st \<noteq> [] \<Longrightarrow> int (length (visited st)) < max_nodes \<Longrightarrow>
   traverse_loop all_docs max_nodes max_depth st =
   traverse_loop all_docs max_nodes max_depth (loop_body all_docs max_depth st)"
  by (subst traverse_loop.simps) simp

lemma traverse_loop_exit:
  "nodes_to_explore (traverse_loop all_docs max_nodes max_depth st) = [] \<or>
   max_nodes \<le> int (length (visited (traverse_loop all_docs max_nodes max_depth st)))"
proof (induction all_docs max_nodes max_depth st rule: traverse_loop.induct)
  case (1 all_docs max_nodes max_depth st)
  show ?case
  proof (cases "nodes_to_explore st \<noteq> [] \<and> int (length (visited st)) < max_nodes")
    case True
    then show ?thesis using "1.IH" by (simp add: traverse_loop_step)
  next
    case False
    then show ?thesis by (auto simp add: traverse_loop_stop)
  qed
qed

lemma traverse_loop_run:
  "run_state all_docs max_nodes max_depth seeds st \<Longrightarrow>
   run_state all_docs max_nodes max_depth seeds (traverse_loop all_docs max_nodes max_depth st) \<and>
   (traverse_loop all_docs max_nodes max_depth st = st \<or>
    (\<exists>st'. run_state all_docs max_nodes max_depth seeds st' \<and>
       nodes_to_explore st' \<noteq> [] \<and> int (length (visited st')) < max_nodes \<and>
       traverse_loop all_docs max_nodes max_depth st = loop_body all_docs max_depth st'))"
proof (induction all_docs max_nodes max_depth st rule: traverse_loop.induct)
  case (1 all_docs max_nodes max_depth st)
  show ?case
  proof (cases "nodes_to_explore st \<noteq> [] \<and> int (length (visited st)) < max_nodes")
    case True
    then have eq: "traverse_loop all_docs max_nodes max_depth st =
       traverse_loop all_docs max_nodes max_depth (loop_body all_docs max_depth st)"
      by (simp add: traverse_loop_step)
    have r: "run_state all_docs max_nodes max_depth seeds (loop_body all_docs max_depth st)"
      using "1.prems" True by (simp add: run_state.iterate)
    from "1.IH" [OF True r] show ?thesis
      unfolding eq using True "1.prems" by blast
  next
    case False
    then show ?thesis using "1.prems" by (auto simp add: traverse_loop_stop)
  qed
qed

text \<open>The equations that evaluate a traversal on concrete data.\<close>

lemmas traversal_eval = traverse_graph_def initial_state_def loop_body_def expand_def
  parent_traversal_def children_traversal_def sibling_traversal_def same_level_traversal_def
  semantic_traversal_def semantic_neighbors_def sort_desc_def visit_def set_add_def
  doc_map_def parent_to_children_def page_to_chunks_def append_to_def truthy_def get_or_def
  counts_dict_def bump_parent_def bump_child_def bump_sibling_def bump_semantic_def bump_topic_def
  cosine_similarity_def Let_def traverse_loop_step traverse_loop_stop

text \<open>
  C1. The claim is that \<open>visited_nodes\<close> never holds more than \<open>max_nodes\<close> ids. It fails:
  with the seed \<open>A\<close> and \<open>max_nodes = 2\<close> the first expansion of \<open>A\<close> adds its parent, its
  child and its sibling, and the traversal returns four ids.
\<close>

theorem visited_exceeds_max_nodes_counterexample:
  "\<not> int (length (visited_nodes (traverse_graph family_docs [''A''] 2 2))) \<le> 2"
  by (simp add: family_docs_def doc_P_def doc_A_def doc_C_def doc_B_def traversal_eval)

text \<open>
  C1, as the code has it. The bound \<open>max_nodes\<close> is the guard of the loop, checked before a node
  is popped and not inside an expansion. \<open>run_state\<close> holds of the states this run has at the
  head of the loop. The state the loop ends in is one of them. The visited set returned is
  either the set of seeds, or the visited set after the loop body ran on a state of this run
  that had a non-empty worklist and fewer than \<open>max_nodes\<close> ids visited. When the loop stops,
  the worklist is empty or at least \<open>max_nodes\<close> ids are visited. When the seeds already number
  \<open>max_nodes\<close> or more, the seeds are returned and nothing is expanded.
\<close>

theorem budget_checked_before_each_expansion:
  "run_state all_docs max_nodes max_depth seeds
     (traverse_loop all_docs max_nodes max_depth (initial_state seeds)) \<and>
   (visited_nodes (traverse_graph all_docs seeds max_nodes max_depth) = remdups seeds \<or>
    (\<exists>st'. run_state all_docs max_nodes max_depth seeds st' \<and>
       nodes_to_explore st' \<noteq> [] \<and> int (length (visited st')) < max_nodes \<and>
       visited_nodes (traverse_graph all_docs seeds max_nodes max_depth) =
         visited (loop_body all_docs max_depth st'))) \<and>
   (nodes_to_explore (traverse_loop all_docs max_nodes max_depth (initial_state seeds)) = [] \<or>
    max_nodes \<le> int (length (visited_nodes (traverse_graph all_docs seeds max_nodes max_depth)))) \<and>
   (max_nodes \<le> int (length (remdups seeds)) \<longrightarrow>
      visited_nodes (traverse_graph all_docs seeds max_nodes max_depth) = remdups seeds)"
proof -
  let ?st0 = "initial_state seeds"
  let ?fin = "traverse_loop all_docs max_nodes max_depth ?st0"
  have v: "visited_nodes (traverse_graph all_docs seeds max_nodes max_depth) = visited ?fin"
    by (simp add: traverse_graph_def Let_def)
  have v0: "visited ?st0 = remdups seeds"
    by (simp add: initial_state_def)
  note r = traverse_loop_run [OF run_state.start, of all_docs max_nodes max_depth seeds]
  have a: "visited ?fin = remdups seeds \<or>
    (\<exists>st'. run_state all_docs max_nodes max_depth seeds st' \<and>
       nodes_to_explore st' \<noteq> [] \<and> int (length (visited st')) < max_nodes \<and>
       visited ?fin = visited (loop_body all_docs max_depth st'))"
    using r v0 by auto
  have b: "nodes_to_explore ?fin = [] \<or> max_nodes \<le> int (length (visited ?fin))"
    by (rule traverse_loop_exit)
  have c: "visited ?fin = remdups seeds" if "max_nodes \<le> int (length (remdups seeds))"
    using that v0 by (simp add: traverse_loop_stop)
  from r a b c show ?thesis unfolding v by blast
qed

theorem budget_checked_before_each_expansion_witness:
  "run_state family_docs 2 2 [''A''] (traverse_loop family_docs 2 2 (initial_state [''A''])) \<and>
   visited_nodes (traverse_graph family_docs [''A''] 2 2) = [''A'', ''P'', ''C'', ''B''] \<and>
   (\<exists>st'. run_state family_docs 2 2 [''A''] st' \<and> nodes_to_explore st' \<noteq> [] \<and>
      int (length (visited st')) < 2 \<and>
      visited (loop_body family_docs 2 st') = [''A'', ''P'', ''C'', ''B'']) \<and>
   (2::int) \<le> int (length (remdups [''A'', ''B''])) \<and>
   visited_nodes (traverse_graph family_docs [''A'', ''B''] 2 2) = [''A'', ''B'']"
proof -
  have e: "visited_nodes (traverse_graph family_docs [''A''] 2 2) = [''A'', ''P'', ''C'', ''B'']"
    by (simp add: family_docs_def doc_P_def doc_A_def doc_C_def doc_B_def traversal_eval)
  note t = budget_checked_before_each_expansion [of family_docs 2 2 "[''A'']"]
  from t have r: "run_state family_docs 2 2 [''A''] (traverse_loop family_docs 2 2 (initial_state [''A'']))"
    by (rule conjunct1)
  from t have "visited_nodes (traverse_graph family_docs [''A''] 2 2) = remdups [''A''] \<or>
    (\<exists>st'. run_state family_docs 2 2 [''A''] st' \<and> nodes_to_explore st' \<noteq> [] \<and>
       int (length (visited st')) < 2 \<and>
       visited_nodes (traverse_graph family_docs [''A''] 2 2) = visited (loop_body family_docs 2 st'))"
    by (rule conjunct1 [OF conjunct2])
  then have x: "\<exists>st'. run_state family_docs 2 2 [''A''] st' \<and> nodes_to_explore st' \<noteq> [] \<and>
      int (length (visited st')) < 2 \<and>
      visited (loop_body family_docs 2 st') = [''A'', ''P'', ''C'', ''B'']"
    unfolding e by auto
  from budget_checked_before_each_expansion [of family_docs 2 2 "[''A'', ''B'']"]
  have s: "visited_nodes (traverse_graph family_docs [''A'', ''B''] 2 2) = [''A'', ''B'']"
    by simp
  from r e x s show ?thesis by simp
qed

text \<open>
  C6. The claim is that \<open>relationship_counts\<close> maps each hop label to the number of hops
  recorded with that label. On the code the counter keys are \<open>parent\<close>, \<open>child\<close>, \<open>sibling\<close>,
  \<open>semantic\<close> and \<open>topic\<close>: a hop labelled \<open>same_level\<close> adds one to the counter \<open>semantic\<close>
  (and a hop labelled \<open>semantic\<close> adds one to \<open>topic\<close>). From the seed \<open>X\<close> the node \<open>Y\<close> is
  found by the same-page, same-level strategy: its path ends in \<open>same_level\<close>, no path has the
  label \<open>semantic\<close>, there is no counter \<open>same_level\<close>, and the counter \<open>semantic\<close> is 1.
\<close>

theorem same_level_hop_counted_as_semantic_evaluated:
  "tr_discovery_paths (traverse_graph [doc_X, doc_Y] [''X''] 10 3) ''Y'' = Some [''seed'', ''same_level''] \<and>
   tr_relationship_counts (traverse_graph [doc_X, doc_Y] [''X''] 10 3) ''same_level'' = None \<and>
   tr_relationship_counts (traverse_graph [doc_X, doc_Y] [''X''] 10 3) ''semantic'' = Some 1 \<and>
   tr_discovery_paths (traverse_graph [doc_X, doc_Y] [''X''] 10 3) ''X'' = Some [''seed'']"
  by (simp add: doc_X_def doc_Y_def traversal_eval)

text \<open>Once the visited list is saturated, the rest of the loop only pops the worklist.\<close>

lemma fold_noop: "(\<And>x. x \<in> set xs \<Longrightarrow> f x st = st) \<Longrightarrow> fold f xs st = st"
  by (induction xs) simp_all

lemma saturated_ids: "saturated all_docs vis \<Longrightarrow> d_id ` set all_docs \<subseteq> set vis"
  by (auto simp: saturated_def)

lemma parent_noop:
  "d \<in> set all_docs \<Longrightarrow> saturated all_docs (visited st) \<Longrightarrow> parent_traversal d c dp st = st"
  by (auto simp: parent_traversal_def saturated_def Let_def)

lemma children_noop:
  assumes "saturated all_docs (visited st)"
  shows "children_traversal all_docs c dp st = st"
  unfolding children_traversal_def Let_def
proof (rule fold_noop)
  fix x assume "x \<in> set (get_or (parent_to_children all_docs c) [])"
  then have "x \<in> set (visited st)"
    using parent_to_children_ids saturated_ids [OF assms] by blast
  then show "(if x \<notin> set (visited st) then visit ''child'' bump_child c dp x st else st) = st"
    by simp
qed

lemma sibling_noop:
  assumes "saturated all_docs (visited st)"
  shows "sibling_traversal all_docs d c dp st = st"
proof -
  have "fold (\<lambda>sibling_id s.
               if sibling_id \<noteq> c \<and> sibling_id \<notin> set (visited s)
               then visit ''sibling'' bump_sibling c dp sibling_id s else s)
        (get_or (parent_to_children all_docs (get_or (d_parent_chunk_id d) [])) []) st = st"
  proof (rule fold_noop)
    fix x assume "x \<in> set (get_or (parent_to_children all_docs (get_or (d_parent_chunk_id d) [])) [])"
    then have "x \<in> set (visited st)"
      using parent_to_children_ids saturated_ids [OF assms] by blast
    then show "(if x \<noteq> c \<and> x \<notin> set (visited st)
                then visit ''sibling'' bump_sibling c dp x st else st) = st"
      by simp
  qed
  then show ?thesis by (simp add: sibling_traversal_def Let_def)
qed

lemma same_level_noop:
  assumes "saturated all_docs (visited st)"
  shows "same_level_traversal all_docs d c dp st = st"
proof -
  have "fold (\<lambda>chunk_id s.
               if chunk_id \<noteq> c \<and> chunk_id \<notin> set (visited s)
               then (case doc_map all_docs chunk_id of
                       None \<Rightarrow> s
                     | Some chunk_doc \<Rightarrow>
                         if d_level chunk_doc = Some (get_or (d_level d) 0)
                         then visit ''same_level'' bump_semantic c dp chunk_id s
                         else s)
               else s)
        (get_or (page_to_chunks all_docs (get_or (d_page_id d) [])) []) st = st"
  proof (rule fold_noop)
    fix x assume "x \<in> set (get_or (page_to_chunks all_docs (get_or (d_page_id d) [])) [])"
    then have "x \<in> set (visited st)"
      using page_to_chunks_ids saturated_ids [OF assms] by blast
    then show "(if x \<noteq> c \<and> x \<notin> set (visited st)
               then (case doc_map all_docs x of
                       None \<Rightarrow> st
                     | Some chunk_doc \<Rightarrow>
                         if d_level chunk_doc = Some (get_or (d_level d) 0)
                         then visit ''same_level'' bump_semantic c dp x st
                         else st)
               else st) = st"
      by simp
  qed
  then show ?thesis by (simp add: same_level_traversal_def Let_def)
qed

lemma semantic_neighbors_nil:
  assumes "saturated all_docs vis"
  shows "semantic_neighbors all_docs e vis = []"
proof (rule ccontr)
  assume "semantic_neighbors all_docs e vis \<noteq> []"
  then obtain x s where "(x, s) \<in> set (semantic_neighbors all_docs e vis)"
    by (cases "semantic_neighbors all_docs e vis") auto
  then show False
    using semantic_neighbors_set saturated_ids [OF assms] by blast
qed

lemma semantic_noop:
  "saturated all_docs (visited st) \<Longrightarrow> semantic_traversal all_docs d c dp st = st"
  by (simp add: semantic_traversal_def semantic_neighbors_nil sort_desc_def)

lemma expand_noop:
  "d \<in> set all_docs \<Longrightarrow> saturated all_docs (visited st) \<Longrightarrow> expand all_docs d c dp st = st"
  by (simp add: expand_def parent_noop children_noop sibling_noop same_level_noop semantic_noop)

lemma loop_body_saturated:
  assumes "saturated all_docs (visited st)"
  shows "loop_body all_docs max_depth st = st\<lparr>nodes_to_explore := tl (nodes_to_explore st)\<rparr>"
proof (cases "nodes_to_explore st")
  case Nil
  then show ?thesis by (simp add: loop_body_def)
next
  case (Cons cd rest)
  obtain c dp where cd: "cd = (c, dp)" by (cases cd)
  show ?thesis
  proof (cases "doc_map all_docs c")
    case None
    then show ?thesis using Cons cd by (simp add: loop_body_def Let_def)
  next
    case (Some d)
    then have "d \<in> set all_docs" using doc_map_Some by blast
    then have "expand all_docs d c dp (st\<lparr>nodes_to_explore := rest\<rparr>) = st\<lparr>nodes_to_explore := rest\<rparr>"
      using assms by (simp add: expand_noop)
    then show ?thesis using Cons cd Some by (simp add: loop_body_def Let_def)
  qed
qed

lemma traverse_loop_saturated:
  "saturated all_docs (visited st) \<Longrightarrow>
   visited (traverse_loop all_docs max_nodes max_depth st) = visited st \<and>
   discovery_paths (traverse_loop all_docs max_nodes max_depth st) = discovery_paths st \<and>
   relationship_counts (traverse_loop all_docs max_nodes max_depth st) = relationship_counts st"
proof (induction all_docs max_nodes max_depth st rule: traverse_loop.induct)
  case (1 all_docs max_nodes max_depth st)
  show ?case
  proof (cases "nodes_to_explore st \<noteq> [] \<and> int (length (visited st)) < max_nodes")
    case True
    have lb: "loop_body all_docs max_depth st = st\<lparr>nodes_to_explore := tl (nodes_to_explore st)\<rparr>"
      using "1.prems" by (rule loop_body_saturated)
    have "saturated all_docs (visited (loop_body all_docs max_depth st))"
      using "1.prems" by (simp add: lb)
    from "1.IH" [OF True this] show ?thesis
      using True by (simp add: traverse_loop_step lb)
  next
    case False
    then show ?thesis by (auto simp add: traverse_loop_stop)
  qed
qed

text \<open>The dictionaries of a snapshot, and lists without repetitions.\<close>

lemma append_fold_get:
  "get_or (fold (\<lambda>d m. if P d then append_to (key d) (d_id d) m else m) ds m k) [] =
     get_or (m k) [] @ map d_id (filter (\<lambda>d. P d \<and> key d = k) ds)"
proof (induction ds arbitrary: m)
  case Nil
  show ?case by simp
next
  case (Cons d ds)
  let ?m' = "if P d then append_to (key d) (d_id d) m else m"
  have m': "get_or (?m' k) [] = get_or (m k) [] @ (if P d \<and> key d = k then [d_id d] else [])"
    by (simp add: append_to_def get_or_def)
  have "get_or (fold (\<lambda>d m. if P d then append_to (key d) (d_id d) m else m) (d # ds) m k) [] =
        get_or (?m' k) [] @ map d_id (filter (\<lambda>d. P d \<and> key d = k) ds)"
    using Cons.IH [of ?m'] by (simp only: fold_simps)
  then show ?case
    unfolding m' by simp
qed

lemma parent_to_children_filter:
  "get_or (parent_to_children all_docs k) [] =
     map d_id (filter (\<lambda>d. truthy (d_parent_chunk_id d) \<and> get_or (d_parent_chunk_id d) [] = k) all_docs)"
  unfolding parent_to_children_def
  by (simp add: append_fold_get [where m = Map.empty, simplified get_or_def, simplified] get_or_def)

lemma doc_map_fold_absent:
  "k \<notin> d_id ` set ds \<Longrightarrow> fold (\<lambda>d m. m(d_id d \<mapsto> d)) ds m k = m k"
proof (induction ds arbitrary: m)
  case Nil
  show ?case by simp
next
  case (Cons x xs)
  then have "k \<notin> d_id ` set xs" "k \<noteq> d_id x" by auto
  from Cons.IH [OF this(1), of "m(d_id x \<mapsto> x)"] this(2)
  show ?case by (simp only: fold_simps fun_upd_apply if_False)
qed

lemma doc_map_fold_distinct:
  "distinct (map d_id ds) \<Longrightarrow> d \<in> set ds \<Longrightarrow> fold (\<lambda>d m. m(d_id d \<mapsto> d)) ds m (d_id d) = Some d"
proof (induction ds arbitrary: m)
  case Nil
  then show ?case by simp
next
  case (Cons x xs)
  show ?case
  proof (cases "d = x")
    case True
    then have "d_id d \<notin> d_id ` set xs" using Cons.prems by auto
    then have "fold (\<lambda>d m. m(d_id d \<mapsto> d)) xs (m(d_id x \<mapsto> x)) (d_id d) = (m(d_id x \<mapsto> x)) (d_id d)"
      by (rule doc_map_fold_absent)
    then show ?thesis using True by (simp only: fold_simps fun_upd_same)
  next
    case False
    then have "d \<in> set xs" "distinct (map d_id xs)" using Cons.prems by auto
    from Cons.IH [OF this(2,1)] show ?thesis by (simp only: fold_simps)
  qed
qed

lemma doc_map_distinct:
  "distinct (map d_id all_docs) \<Longrightarrow> d \<in> set all_docs \<Longrightarrow> doc_map all_docs (d_id d) = Some d"
  by (simp add: doc_map_def doc_map_fold_distinct)

lemma distinct_singleton:
  assumes "distinct ys" "set ys = {x}"
  shows "ys = [x]"
proof (cases ys)
  case Nil
  then show ?thesis using assms(2) by simp
next
  case (Cons y zs)
  then have y: "y = x" using assms(2) by auto
  have "set zs \<subseteq> {x}" using assms(2) Cons by auto
  moreover have "x \<notin> set zs" using assms(1) Cons y by simp
  ultimately have "zs = []" by (cases zs) auto
  then show ?thesis using Cons y by simp
qed

lemma distinct_pair:
  assumes "distinct ys" "set ys = {x, y}" "x \<noteq> y"
  shows "ys = [x, y] \<or> ys = [y, x]"
proof (cases ys)
  case Nil
  then show ?thesis using assms(2) by simp
next
  case (Cons u zs)
  then have d: "distinct zs" "u \<notin> set zs" using assms(1) by simp_all
  have u: "u = x \<or> u = y" using assms(2) Cons by auto
  then show ?thesis
  proof
    assume ux: "u = x"
    have "set zs = {y}" using assms(2,3) Cons d ux by auto
    from distinct_singleton [OF d(1) this] show ?thesis using Cons ux by simp
  next
    assume uy: "u = y"
    have "set zs = {x}" using assms(2,3) Cons d uy by auto
    from distinct_singleton [OF d(1) this] show ?thesis using Cons uy by simp
  qed
qed

lemma get_or_simps: "get_or None dflt = dflt" "get_or (Some x) dflt = x"
  by (simp_all add: get_or_def)

lemma truthy_simps: "truthy None = False" "truthy (Some s) = (s \<noteq> [])"
  by (simp_all add: truthy_def)

lemmas expansion_eval = parent_traversal_def children_traversal_def sibling_traversal_def
  visit_def set_add_def get_or_simps truthy_simps
  bump_parent_def bump_child_def bump_sibling_def Let_def

text \<open>
  C5. The store holds, in any order, a node \<open>a\<close> whose parent is \<open>p\<close>, a child \<open>c\<close> of \<open>a\<close>
  and another child \<open>b\<close> of \<open>p\<close>; \<open>p\<close> has no parent. The ids are distinct, and all other
  fields of the four documents (page, level, embedding, texts) are arbitrary. With the seed
  \<open>a\<close>, \<open>max_depth = 2\<close> and \<open>max_nodes \<ge> 2\<close> (the loop must be entered once), the traversal
  returns the visited set \<open>{a, p, c, b}\<close>, and \<open>b\<close> is recorded with the path
  \<open>[seed, sibling]\<close>: it is reached from \<open>a\<close> by the sibling strategy, and the later visit of
  \<open>p\<close> does not change its path.
\<close>

theorem sibling_reached_from_seed:
  fixes dA dP dC dB :: doc
  assumes docs: "set all_docs = {dP, dA, dC, dB}" "distinct (map d_id all_docs)"
    and ids: "d_id dA = a" "d_id dP = p" "d_id dC = c" "d_id dB = b"
    and dist: "distinct [a, p, c, b]" "a \<noteq> []" "p \<noteq> []"
    and parents: "d_parent_chunk_id dA = Some p" "d_parent_chunk_id dP = None"
      "d_parent_chunk_id dC = Some a" "d_parent_chunk_id dB = Some p"
    and budget: "2 \<le> max_nodes"
  shows "set (visited_nodes (traverse_graph all_docs [a] max_nodes 2)) = {a, p, c, b} \<and>
         tr_discovery_paths (traverse_graph all_docs [a] max_nodes 2) b = Some [''seed'', ''sibling''] \<and>
         tr_discovery_paths (traverse_graph all_docs [a] max_nodes 2) p = Some [''seed'', ''parent''] \<and>
         tr_discovery_paths (traverse_graph all_docs [a] max_nodes 2) c = Some [''seed'', ''child''] \<and>
         tr_discovery_paths (traverse_graph all_docs [a] max_nodes 2) a = Some [''seed'']"
proof -
  let ?st0 = "initial_state [a]"
  let ?st1 = "sibling_traversal all_docs dA a 0 (children_traversal all_docs a 0
                (parent_traversal dA a 0 (?st0\<lparr>nodes_to_explore := []\<rparr>)))"
  have dd: "distinct all_docs" using docs(2) by (rule distinct_map [THEN iffD1, THEN conjunct1])
  have neq: "dA \<noteq> dB" "dA \<noteq> dC" "dA \<noteq> dP" "dB \<noteq> dC" "dB \<noteq> dP" "dC \<noteq> dP"
    using ids dist by auto
  let ?Qa = "\<lambda>d. truthy (d_parent_chunk_id d) \<and> get_or (d_parent_chunk_id d) [] = a"
  let ?Qp = "\<lambda>d. truthy (d_parent_chunk_id d) \<and> get_or (d_parent_chunk_id d) [] = p"
  have "set (filter ?Qa all_docs) = {dC}"
    using docs(1) parents dist by (auto simp: truthy_simps get_or_simps)
  then have "filter ?Qa all_docs = [dC]"
    using dd by (intro distinct_singleton) simp_all
  then have ch: "get_or (parent_to_children all_docs a) [] = [c]"
    by (simp add: parent_to_children_filter ids)
  have "set (filter ?Qp all_docs) = {dA, dB}"
    using docs(1) parents dist by (auto simp: truthy_simps get_or_simps)
  then have "filter ?Qp all_docs = [dA, dB] \<or> filter ?Qp all_docs = [dB, dA]"
    using dd neq by (intro distinct_pair) simp_all
  then have sib: "get_or (parent_to_children all_docs p) [] = [a, b] \<or>
                  get_or (parent_to_children all_docs p) [] = [b, a]"
    by (auto simp add: parent_to_children_filter ids)
  have v1: "visited ?st1 = [a, p, c, b]"
    using sib ids dist parents by (auto simp add: initial_state_def expansion_eval ch)
  have p1: "discovery_paths ?st1 b = Some [''seed'', ''sibling'']"
    "discovery_paths ?st1 p = Some [''seed'', ''parent'']"
    "discovery_paths ?st1 c = Some [''seed'', ''child'']"
    "discovery_paths ?st1 a = Some [''seed'']"
    using sib ids dist parents by (auto simp add: initial_state_def expansion_eval ch)
  have sat: "saturated all_docs (visited ?st1)"
    unfolding v1 using ids parents docs(1) by (simp add: saturated_def truthy_simps get_or_simps)
  have "dA \<in> set all_docs" using docs(1) by simp
  from doc_map_distinct [OF docs(2) this] have dm: "doc_map all_docs a = Some dA"
    by (simp add: ids)
  have lb: "loop_body all_docs 2 ?st0 = ?st1"
    using dm sat
    by (simp add: loop_body_def initial_state_def expand_def same_level_noop semantic_noop Let_def)
  have "traverse_loop all_docs max_nodes 2 ?st0 =
        traverse_loop all_docs max_nodes 2 (loop_body all_docs 2 ?st0)"
    by (rule traverse_loop_step) (use budget in \<open>simp_all add: initial_state_def\<close>)
  then have "traverse_loop all_docs max_nodes 2 ?st0 = traverse_loop all_docs max_nodes 2 ?st1"
    by (simp only: lb)
  then show ?thesis
    using traverse_loop_saturated [OF sat, of max_nodes 2] v1 p1
    by (auto simp add: traverse_graph_def Let_def)
qed

theorem sibling_reached_from_seed_witness:
  "set [doc_B, doc_C, doc_A, doc_P] = {doc_P, doc_A, doc_C, doc_B} \<and>
   distinct (map d_id [doc_B, doc_C, doc_A, doc_P]) \<and> (2::int) \<le> 10 \<and>
   d_parent_chunk_id doc_A = Some ''P'' \<and> d_parent_chunk_id doc_P = None \<and>
   d_parent_chunk_id doc_C = Some ''A'' \<and> d_parent_chunk_id doc_B = Some ''P'' \<and>
   set (visited_nodes (traverse_graph [doc_B, doc_C, doc_A, doc_P] [''A''] 10 2)) = {''A'', ''P'', ''C'', ''B''} \<and>
   tr_discovery_paths (traverse_graph [doc_B, doc_C, doc_A, doc_P] [''A''] 10 2) ''B''
     = Some [''seed'', ''sibling'']"
proof -
  have s: "set [doc_B, doc_C, doc_A, doc_P] = {doc_P, doc_A, doc_C, doc_B}" by auto
  have d: "distinct (map d_id [doc_B, doc_C, doc_A, doc_P])"
    by (simp add: doc_A_def doc_P_def doc_C_def doc_B_def)
  from sibling_reached_from_seed
    [OF s d, where a = "''A''" and p = "''P''" and c = "''C''" and b = "''B''" and max_nodes = 10]
  show ?thesis using s d
    by (simp add: doc_A_def doc_P_def doc_C_def doc_B_def)
qed

subsection \<open>The search\<close>

lemma get_document_by_id_None:
  "node_id \<notin> d_id ` set store \<Longrightarrow> get_document_by_id store node_id = None"
  by (auto simp: get_document_by_id_def find_None_iff)

lemma get_document_by_id_Some:
  "get_document_by_id store node_id = Some d \<Longrightarrow> d \<in> set store"
  by (auto simp: get_document_by_id_def find_Some_iff)

lemma doc_map_None:
  "node_id \<notin> d_id ` set all_docs \<Longrightarrow> doc_map all_docs node_id = None"
proof (rule ccontr)
  assume n: "node_id \<notin> d_id ` set all_docs" and "doc_map all_docs node_id \<noteq> None"
  then obtain d where "doc_map all_docs node_id = Some d" by auto
  from doc_map_Some [OF this] n show False by auto
qed

lemma search_documents_stored:
  assumes "filter (\<lambda>d. d_embedding d \<noteq> None) store \<noteq> []"
  shows "(\<exists>qs. graph_stats (search store (Inr qe) topics n_seed n_total max_depth) = Stats qs) \<and>
         set (documents (search store (Inr qe) topics n_seed n_total max_depth))
           \<subseteq> (\<lambda>d. get_or (d_full_context d) ''No context available'') ` set store"
  using assms
  by (auto simp: search_def Let_def split: option.splits prod.splits
      dest!: get_document_by_id_Some [OF sym])

text \<open>
  C7. If a node id is not present in the store (as a dangling \<^verbatim>\<open>parent_chunk_id\<close> is), then
  scoring it yields \<open>0\<close>; popping it from the worklist changes nothing but the worklist (the
  visited set, the paths and the counters are as before); and a search whose query embedding
  was obtained over a corpus with embedded nodes returns statistics, not an error, and every
  document it returns is the text of a stored node.
\<close>

theorem missing_node_is_skipped:
  assumes "node_id \<notin> d_id ` set store"
  shows "get_node_relevance_score store node_id query_embedding topics path = Fin 0 \<and>
         loop_body store max_depth (st\<lparr>nodes_to_explore := (node_id, dp) # rest\<rparr>)
           = st\<lparr>nodes_to_explore := rest\<rparr> \<and>
         (filter (\<lambda>d. d_embedding d \<noteq> None) store \<noteq> [] \<longrightarrow>
            (\<exists>qs. graph_stats (search store (Inr query_embedding) topics n_seed n_total max_depth)
                     = Stats qs) \<and>
            set (documents (search store (Inr query_embedding) topics n_seed n_total max_depth))
              \<subseteq> (\<lambda>d. get_or (d_full_context d) ''No context available'') ` set store)"
proof -
  have a: "get_node_relevance_score store node_id query_embedding topics path = Fin 0"
    using assms by (simp add: get_node_relevance_score_def get_document_by_id_None)
  have b: "loop_body store max_depth (st\<lparr>nodes_to_explore := (node_id, dp) # rest\<rparr>)
           = st\<lparr>nodes_to_explore := rest\<rparr>"
    using assms by (simp add: loop_body_def Let_def doc_map_None)
  show ?thesis using a b search_documents_stored by blast
qed

lemma orphan_traversal:
  "traverse_graph [orphan_doc] [''A''] 45 3 =
     \<lparr>visited_nodes = [''A'', ''gone''],
      tr_discovery_paths = [''A'' \<mapsto> [''seed''], ''gone'' \<mapsto> [''seed'', ''parent'']],
      tr_relationship_counts = [''parent'' \<mapsto> 1, ''child'' \<mapsto> 0, ''sibling'' \<mapsto> 0,
                                ''semantic'' \<mapsto> 0, ''topic'' \<mapsto> 0]\<rparr>"
  by (simp add: orphan_doc_def traversal_eval)

lemma orphan_scored:
  "score_documents [Fin 1, Fin 0] [orphan_doc] = [(orphan_doc, Fin 1)]"
  by (simp add: score_documents_def sort_desc_def orphan_doc_def truthy_def get_or_def
      cos_unit_vectors)

lemma orphan_score:
  "get_node_relevance_score [orphan_doc] ''A'' [Fin 1, Fin 0] [] (Some [''seed''])
     = Fin (7025615418697974 / 2 ^ 52)"
proof -
  define c :: real where "c = 5854679515581645 / 2 ^ 52"
  define l :: real where "l = 5404319552844595 / 2 ^ 52"
  have c: "float_lit 1.3 = Fin c" by (simp only: float_lit_1_3 c_def)
  have l: "float_lit 1.2 = Fin l" by (simp only: float_lit_1_2 l_def)
  then have l': "float_lit (6 / 5) = Fin l" by simp
  have "round_fl (of_int 5854679515581645 * 2 powi (- 52)) = Fin (of_int 5854679515581645 * 2 powi (- 52))"
    by (rule round_fl_repr) simp_all
  then have r: "round_fl c = Fin c" by (simp add: c_def power_int_minus)
  have "round_fl (c * l) = Fin (of_int 7025615418697974 * 2 powi (- 52))"
    by (rule round_fl_between [where k = 0]) (simp_all add: c_def l_def power_int_minus)
  then have m: "round_fl (c * l) = Fin (7025615418697974 / 2 ^ 52)"
    by (simp add: power_int_minus)
  have g: "get_document_by_id [orphan_doc] ''A'' = Some orphan_doc"
    by (simp add: get_document_by_id_def orphan_doc_def)
  have e: "d_embedding orphan_doc = Some [Fin 1, Fin 0]"
    by (simp add: orphan_doc_def)
  have pb: "path_boost_of (Some [''seed'']) = Fin c"
    by (simp add: path_boost_of_def c)
  have tb: "topic_boost_of orphan_doc [] = Fin 1"
    by (simp add: topic_boost_of_def)
  have lb: "level_boost_of orphan_doc = Fin l"
    by (simp add: level_boost_of_def orphan_doc_def get_or_def l')
  show ?thesis
    by (simp add: get_node_relevance_score_def g e pb tb lb cos_unit_vectors r m)
qed

lemma orphan_search:
  "documents (search [orphan_doc] (Inr [Fin 1, Fin 0]) [] 5 15 3) = [''Alpha a''] \<and>
   scores (search [orphan_doc] (Inr [Fin 1, Fin 0]) [] 5 15 3) = [Fin (7025615418697974 / 2 ^ 52)]"
proof -
  define sc :: fl where "sc = Fin (7025615418697974 / 2 ^ 52)"
  have s1: "get_node_relevance_score [orphan_doc] ''A'' [Fin 1, Fin 0] [] (Some [''seed'']) = sc"
    by (simp only: orphan_score sc_def)
  have s2: "get_node_relevance_score [orphan_doc] ''gone'' [Fin 1, Fin 0] [] (Some [''seed'', ''parent''])
              = Fin 0"
    by (simp add: get_node_relevance_score_def get_document_by_id_def orphan_doc_def)
  have le: "\<not> fl_le sc (Fin 0)" "fl_le (Fin 0) sc"
    by (simp_all add: sc_def)
  have g1: "get_document_by_id [orphan_doc] ''A'' = Some orphan_doc"
    and g2: "get_document_by_id [orphan_doc] ''gone'' = None"
    by (simp_all add: get_document_by_id_def orphan_doc_def)
  have fc: "d_full_context orphan_doc = Some ''Alpha a''" and i: "d_id orphan_doc = ''A''"
    and e: "d_embedding orphan_doc = Some [Fin 1, Fin 0]"
    by (simp_all add: orphan_doc_def)
  have "documents (search [orphan_doc] (Inr [Fin 1, Fin 0]) [] 5 15 3) = [''Alpha a''] \<and>
        scores (search [orphan_doc] (Inr [Fin 1, Fin 0]) [] 5 15 3) = [sc]"
    by (simp add: search_def e orphan_scored py_take_def i orphan_traversal s1 s2 g1 g2 fc
        sort_desc_def le get_or_def Let_def)
  then show ?thesis by (simp only: sc_def)
qed

theorem missing_node_is_skipped_witness:
  "''gone'' \<notin> d_id ` set [orphan_doc] \<and>
   d_parent_chunk_id orphan_doc = Some ''gone'' \<and>
   visited_nodes (traverse_graph [orphan_doc] [''A''] 45 3) = [''A'', ''gone''] \<and>
   get_node_relevance_score [orphan_doc] ''gone'' [Fin 1, Fin 0] [] (Some [''seed'', ''parent''])
     = Fin 0 \<and>
   documents (search [orphan_doc] (Inr [Fin 1, Fin 0]) [] 5 15 3) = [''Alpha a''] \<and>
   scores (search [orphan_doc] (Inr [Fin 1, Fin 0]) [] 5 15 3) = [Fin (7025615418697974 / 2 ^ 52)]"
  using missing_node_is_skipped [of "''gone''" "[orphan_doc]" "[Fin 1, Fin 0]" "[]" "Some [''seed'', ''parent'']"]
    orphan_traversal orphan_search
  by (simp add: orphan_doc_def)

text \<open>
  C8. The claim is that for every query an empty corpus gives the single text
  ``No information found in the database.''. The query embedding is computed before the corpus is
  read, so when the embedding service raises, the \<^verbatim>\<open>except\<close> branch answers with the text of
  the error instead.
\<close>

theorem embedding_failure_on_empty_corpus_counterexample:
  "documents (search [] (Inl ''connection refused'') [] 5 15 3)
     \<noteq> [''No information found in the database.'']"
  by (simp add: search_def)

text \<open>
  C8, as the code has it. For every query whose embedding the embedding service returns, if no
  stored node carries an embedding then the result is exactly the one text
  ``No information found in the database.'' with the scores \<open>[0.0]\<close> (and an error note in
  the statistics).
\<close>

theorem no_embedded_nodes_gives_no_information:
  assumes "filter (\<lambda>d. d_embedding d \<noteq> None) store = []"
  shows "search store (Inr query_embedding) topics n_seed n_total max_depth =
           \<lparr>documents = [''No information found in the database.''],
            scores = [Fin 0],
            graph_stats = StatsError ''No documents with embeddings found''\<rparr>"
  using assms by (simp add: search_def)

theorem no_embedded_nodes_gives_no_information_witness:
  "filter (\<lambda>d. d_embedding d \<noteq> None) [doc_X, doc_Y] = [] \<and>
   documents (search [doc_X, doc_Y] (Inr [Fin 1, Fin 0]) [''setup''] 5 15 3)
     = [''No information found in the database.''] \<and>
   scores (search [doc_X, doc_Y] (Inr [Fin 1, Fin 0]) [''setup''] 5 15 3) = [Fin 0]"
proof -
  have h: "filter (\<lambda>d. d_embedding d \<noteq> None) [doc_X, doc_Y] = []"
    by (simp add: doc_X_def doc_Y_def)
  from no_embedded_nodes_gives_no_information [OF h, of "[Fin 1, Fin 0]" "[''setup'']" 5 15 3] h
  show ?thesis by simp
qed

subsection \<open>The chunker\<close>

lemma save_chunk_headers:
  "map header (chunks (save_chunk st)) =
     map header (chunks st) @ pending (current_chunk st) (content_buffer st \<noteq> [])"
  by (simp add: save_chunk_def pending_def Let_def split: option.splits)

lemma process_body:
  "\<not> is_heading e \<Longrightarrow>
   process_element pid e st =
     (if current_chunk st \<noteq> None \<and> strip (extract_text_with_code e) \<noteq> []
      then st\<lparr>content_buffer := content_buffer st @ [extract_text_with_code e]\<rparr> else st)"
  by (auto simp: process_element_def is_heading_def Let_def split: option.splits)

lemma process_heading:
  assumes "is_heading e"
  shows "chunks (process_element pid e st) = chunks (save_chunk st)"
    and "content_buffer (process_element pid e st) = []"
    and "\<exists>c. current_chunk (process_element pid e st) = Some c \<and> header c = heading_text e"
  using assms
  by (auto simp: process_element_def is_heading_def heading_text_def Let_def split: prod.splits)

lemma body_texts_Cons:
  "body_texts (e # es) =
     (if strip (extract_text_with_code e) \<noteq> [] then [extract_text_with_code e] else []) @ body_texts es"
  by (simp add: body_texts_def)

lemma chunker_headers:
  "map header (chunks (save_chunk (fold (process_element pid) es st))) =
     map header (chunks st)
       @ pending (current_chunk st)
           (content_buffer st \<noteq> [] \<or> has_body (takeWhile (\<lambda>x. \<not> is_heading x) es))
       @ section_headers (dropWhile (\<lambda>x. \<not> is_heading x) es)"
proof (induction es arbitrary: st)
  case Nil
  show ?case by (simp add: save_chunk_headers has_body_def body_texts_def section_headers_def)
next
  case (Cons e es)
  show ?case
  proof (cases "is_heading e")
    case False
    let ?st' = "process_element pid e st"
    have cc: "current_chunk ?st' = current_chunk st" and ch: "chunks ?st' = chunks st"
      using False by (simp_all add: process_body)
    have "pending (current_chunk st) (content_buffer ?st' \<noteq> [] \<or> has_body (takeWhile (\<lambda>x. \<not> is_heading x) es))
        = pending (current_chunk st) (content_buffer st \<noteq> [] \<or> has_body (takeWhile (\<lambda>x. \<not> is_heading x) (e # es)))"
      using False by (auto simp: process_body pending_def has_body_def body_texts_Cons split: option.splits)
    then show ?thesis
      using Cons.IH [of ?st'] False by (simp add: cc ch)
  next
    case True
    let ?st' = "process_element pid e st"
    obtain c where c: "current_chunk ?st' = Some c" "header c = heading_text e"
      using process_heading(3) [OF True] by blast
    have "map header (chunks (save_chunk (fold (process_element pid) es ?st'))) =
       map header (chunks (save_chunk st))
       @ pending (Some c) (has_body (takeWhile (\<lambda>x. \<not> is_heading x) es))
       @ section_headers (dropWhile (\<lambda>x. \<not> is_heading x) es)"
      using Cons.IH [of ?st'] by (simp add: process_heading(1,2) [OF True] c)
    moreover have "section_headers (e # es) =
       pending (Some c) (has_body (takeWhile (\<lambda>x. \<not> is_heading x) es))
       @ section_headers (dropWhile (\<lambda>x. \<not> is_heading x) es)"
      using True by (simp add: section_headers_def pending_def c)
    ultimately show ?thesis
      using True by (simp add: save_chunk_headers has_body_def body_texts_def)
  qed
qed

lemma map_update_same: "(map f cs)[k := f (cs ! k)] = map f cs"
proof (cases "k < length cs")
  case True
  then have "f (cs ! k) = map f cs ! k" by simp
  then show ?thesis by (simp only: list_update_id)
next
  case False
  then show ?thesis by (simp add: list_update_beyond)
qed

lemma add_child_headers: "map header (add_child pid cmap i cs) = map header cs"
  by (simp add: add_child_def map_update map_update_same split: option.splits)

lemma fold_add_child_headers:
  "map header (fold (add_child pid cmap) is cs) = map header cs"
  by (induction "is" arbitrary: cs) (simp_all add: add_child_headers)

lemma fill_children_headers: "map header (fill_children pid cs) = map header cs"
  by (simp add: fill_children_def fold_add_child_headers)

lemma fold_bodies:
  "\<forall>e \<in> set bs. \<not> is_heading e \<Longrightarrow>
   fold (process_element pid) bs st =
     (if current_chunk st \<noteq> None then st\<lparr>content_buffer := content_buffer st @ body_texts bs\<rparr> else st)"
proof (induction bs arbitrary: st)
  case Nil
  show ?case by (simp add: body_texts_def)
next
  case (Cons e bs)
  then have e: "\<not> is_heading e" and bs: "\<forall>e \<in> set bs. \<not> is_heading e" by simp_all
  show ?case
    using Cons.IH [OF bs, of "process_element pid e st"] e
    by (simp add: process_body body_texts_Cons)
qed

lemma str_of_nat_digit: "n < 10 \<Longrightarrow> str_of_nat n = [''0123456789'' ! n]"
  by (simp add: str_of_nat.simps)

text \<open>
  C4. The chunker returns one node per heading whose body is not empty, in document order: the
  headers of the nodes of \<open>chunk_content es pid\<close> are the heading texts of exactly those sections
  of \<open>es\<close> that have some non-blank body text. A heading with an empty body gives no node.
\<close>

theorem chunk_per_heading_with_body:
  "map header (chunk_content es pid) = section_headers es"
proof -
  have "map header (chunk_content es pid) = section_headers (dropWhile (\<lambda>x. \<not> is_heading x) es)"
    by (simp add: chunk_content_def fill_children_headers chunker_headers initial_cstate_def pending_def)
  moreover have "section_headers (dropWhile (\<lambda>x. \<not> is_heading x) es) = section_headers es"
    by (induction es) (simp_all add: section_headers_def)
  ultimately show ?thesis by simp
qed

theorem chunk_per_heading_with_body_witness:
  "map header (chunk_content [heading_el H1 ''A'', paragraph_el ''a'', heading_el H2 ''B'',
                              paragraph_el [CHR 0xA0, CHR '' '', CHR 0x85],
                              heading_el H2 ''C'', paragraph_el ''c''] ''pg'') = [''A'', ''C'']"
  using chunk_per_heading_with_body
    [of "[heading_el H1 ''A'', paragraph_el ''a'', heading_el H2 ''B'',
          paragraph_el [CHR 0xA0, CHR '' '', CHR 0x85],
          heading_el H2 ''C'', paragraph_el ''c'']" "''pg''"]
  by (simp add: section_headers_def has_body_def body_texts_def heading_text_def is_heading_def
      heading_el_def paragraph_el_def extract_text_with_code_def get_text_def strip_def is_space_def)

text \<open>
  C3. The claim is that any document with the headings \<open>H1 A\<close>, \<open>H2 B\<close>, \<open>H2 C\<close>, \<open>H3 C.1\<close>
  gives exactly four nodes. A document that consists of these four headings alone gives none,
  because a heading without body text is not saved.
\<close>

theorem four_bare_headings_counterexample:
  "chunk_content [heading_el H1 ''A'', heading_el H2 ''B'', heading_el H2 ''C'', heading_el H3 ''C.1''] ''pg'' = [] \<and>
   length (chunk_content [heading_el H1 ''A'', heading_el H2 ''B'', heading_el H2 ''C'', heading_el H3 ''C.1''] ''pg'') \<noteq> 4"
  by (simp add: chunk_content_def process_element_def save_chunk_def initial_cstate_def
      fill_children_def heading_el_def Let_def build_header_path_def eval_nat_numeral upt_rec)

text \<open>
  C3, as the code has it. For any document whose headings are, in order, an \<open>h1\<close>, an \<open>h2\<close>,
  an \<open>h2\<close> and an \<open>h3\<close> (the headings \<open>A\<close>, \<open>B\<close>, \<open>C\<close>, \<open>C.1\<close> of the claim), with any
  non-heading elements around them, and in which each of the four headings has some
  non-blank body text: the chunker returns exactly four nodes, one per heading in order; the
  parent of the second and of the third is the first node, the parent of the fourth is the third
  node; the children of the first are the second and the third, the children of the third are
  the fourth, and the other two have none.
\<close>

theorem four_headings_with_bodies:
  assumes es: "es = pre @ [hA] @ bA @ [hB] @ bB @ [hC] @ bC @ [hD] @ bD"
    and bodies: "\<forall>e \<in> set (pre @ bA @ bB @ bC @ bD). \<not> is_heading e"
    and tags: "el_name hA = H1" "el_name hB = H2" "el_name hC = H2" "el_name hD = H3"
    and nonempty: "body_texts bA \<noteq> []" "body_texts bB \<noteq> []" "body_texts bC \<noteq> []" "body_texts bD \<noteq> []"
  shows "map header (chunk_content es pid) = map (\<lambda>h. strip (get_text h)) [hA, hB, hC, hD] \<and>
         map parent_chunk_id (chunk_content es pid) =
           [None, Some (chunk_id_of pid 0), Some (chunk_id_of pid 0), Some (chunk_id_of pid 2)] \<and>
         map children (chunk_content es pid) =
           [[chunk_id_of pid 1, chunk_id_of pid 2], [], [chunk_id_of pid 3], []]"
proof -
  have b: "\<forall>e \<in> set pre. \<not> is_heading e" "\<forall>e \<in> set bA. \<not> is_heading e"
    "\<forall>e \<in> set bB. \<not> is_heading e" "\<forall>e \<in> set bC. \<not> is_heading e" "\<forall>e \<in> set bD. \<not> is_heading e"
    using bodies by auto
  let ?cs = "chunks (save_chunk (fold (process_element pid) es initial_cstate))"
  have len: "length ?cs = 4"
    and hd: "map header ?cs = map (\<lambda>h. strip (get_text h)) [hA, hB, hC, hD]"
    and par: "map parent_chunk_id ?cs =
           [None, Some (chunk_id_of pid 0), Some (chunk_id_of pid 0), Some (chunk_id_of pid 2)]"
    and ch: "map children ?cs = [[], [], [], []]"
    unfolding es
    using tags nonempty
    by (simp_all add: fold_bodies b initial_cstate_def process_element_def save_chunk_def Let_def
        build_header_path_def eval_nat_numeral upt_rec)
  obtain c0 c1 c2 c3 where cs: "?cs = [c0, c1, c2, c3]"
    using len by (auto simp: length_Suc_conv eval_nat_numeral)
  have p: "parent_chunk_id c0 = None" "parent_chunk_id c1 = Some (chunk_id_of pid 0)"
    "parent_chunk_id c2 = Some (chunk_id_of pid 0)" "parent_chunk_id c3 = Some (chunk_id_of pid 2)"
    and c: "children c0 = []" "children c1 = []" "children c2 = []" "children c3 = []"
    using par ch unfolding cs by simp_all
  have fc: "map children (fill_children pid [c0, c1, c2, c3]) =
          [[chunk_id_of pid 1, chunk_id_of pid 2], [], [chunk_id_of pid 3], []]"
    and fp: "map parent_chunk_id (fill_children pid [c0, c1, c2, c3]) =
          [None, Some (chunk_id_of pid 0), Some (chunk_id_of pid 0), Some (chunk_id_of pid 2)]"
    using p c
    by (simp_all add: fill_children_def chunk_map_def add_child_def truthy_def get_or_def
        chunk_id_of_def str_of_nat_digit eval_nat_numeral upt_rec)
  show ?thesis
    using hd fc fp unfolding chunk_content_def cs
    by (simp add: fill_children_headers)
qed

theorem four_headings_with_bodies_witness:
  "map header (chunk_content
      [heading_el H1 ''A'', paragraph_el ''a'', heading_el H2 ''B'', paragraph_el ''b'',
       heading_el H2 ''C'', paragraph_el ''c'', heading_el H3 ''C.1'', paragraph_el ''d''] ''pg'')
     = [''A'', ''B'', ''C'', ''C.1''] \<and>
   map parent_chunk_id (chunk_content
      [heading_el H1 ''A'', paragraph_el ''a'', heading_el H2 ''B'', paragraph_el ''b'',
       heading_el H2 ''C'', paragraph_el ''c'', heading_el H3 ''C.1'', paragraph_el ''d''] ''pg'')
     = [None, Some ''pg-chunk-0'', Some ''pg-chunk-0'', Some ''pg-chunk-2''] \<and>
   map children (chunk_content
      [heading_el H1 ''A'', paragraph_el ''a'', heading_el H2 ''B'', paragraph_el ''b'',
       heading_el H2 ''C'', paragraph_el ''c'', heading_el H3 ''C.1'', paragraph_el ''d''] ''pg'')
     = [[''pg-chunk-1'', ''pg-chunk-2''], [], [''pg-chunk-3''], []]"
  using four_headings_with_bodies
    [of "[heading_el H1 ''A'', paragraph_el ''a'', heading_el H2 ''B'', paragraph_el ''b'',
          heading_el H2 ''C'', paragraph_el ''c'', heading_el H3 ''C.1'', paragraph_el ''d'']"
        "[]" "heading_el H1 ''A''" "[paragraph_el ''a'']" "heading_el H2 ''B''" "[paragraph_el ''b'']"
        "heading_el H2 ''C''" "[paragraph_el ''c'']" "heading_el H3 ''C.1''" "[paragraph_el ''d'']" "''pg''"]
  by (simp add: body_texts_def is_heading_def heading_el_def paragraph_el_def extract_text_with_code_def
      get_text_def strip_def is_space_def chunk_id_of_def str_of_nat_digit)

end
